theory Spec2Isabelle
  imports Main "HOL-Library.Word" "HOL-Library.Monad_Syntax"
begin

section \<open>Integral images (summed-area tables): the builders of integral.cpp\<close>

text \<open>
  The repository computes the summed-area table of a row-major image three ways
  (\<^verbatim>\<open>computeIntegralSingle\<close>, \<^verbatim>\<open>computeIntegralMulti\<close>, \<^verbatim>\<open>computeIntegralNaive\<close>),
  compares tables with \<^verbatim>\<open>equalIntegral\<close> and cross-validates them in \<^verbatim>\<open>main\<close>.

  Data model.
  \<^item> Samples are \<^verbatim>\<open>u32\<close>, table cells and accumulators are \<^verbatim>\<open>u64\<close>: machine words, so
    \<open>+\<close> and \<open>-\<close> wrap around as in C++; \<open>ucast\<close> is the implicit widening of a sample.
  \<^item> A \<^verbatim>\<open>std::vector\<close> is a list. \<^verbatim>\<open>v[i]\<close> does no range check in C++ and an access
    past the end is undefined behaviour; the model makes it a fault: every read and every
    write goes through \<open>vget\<close> and \<open>vset\<close>, whose result is \<open>None\<close> out of range, and a
    builder's result is \<open>None\<close> as soon as one access faults.
  \<^item> \<^verbatim>\<open>size_t\<close> values (dimensions, indices, loop counters) are natural numbers. When
    \<open>w * h\<close> does not exceed the length of the image, every index the builders form is
    below \<open>w * h\<close> and every bound a worker computes is below \<open>h + num_threads\<close> or
    \<open>w + num_threads\<close> (lemma \<open>worker_bounds\<close>), so for a vector that exists no 64-bit
    computation of the code wraps on the inputs the statements below are about.
  \<^item> The output parameter \<^verbatim>\<open>std::vector<u64>& integral\<close> is passed in with its previous
    contents and returned updated.
  \<^item> \<^verbatim>\<open>computeIntegralMulti\<close> starts its workers as threads and joins them all before the
    next phase. Within a phase the workers write pairwise disjoint cells and read only
    the image (phase 1) or the table of the finished phase 1 (phase 2). The model runs
    the workers of a phase to completion one after the other, in the order of their
    thread index, with the join between the phases as sequencing; lemma
    \<open>multi_order_correct\<close> shows that any other order gives the same table. Thread
    creation and memory allocation are assumed to succeed.
\<close>

type_synonym u32 = "32 word"
type_synonym u64 = "64 word"

subsection \<open>Vector accesses and counting loops\<close>

definition vget :: "'a list \<Rightarrow> nat \<Rightarrow> 'a option" where
  "vget v i = (if i < length v then Some (v ! i) else None)"

definition vset :: "'a list \<Rightarrow> nat \<Rightarrow> 'a \<Rightarrow> 'a list option" where
  "vset v i a = (if i < length v then Some (v[i := a]) else None)"

text \<open>
  \<^verbatim>\<open>for (size_t i = i0; i < n; ++i) body\<close> over a state \<open>s\<close>; a fault in the body ends
  the loop with the fault.
\<close>

function for_loop :: "nat \<Rightarrow> nat \<Rightarrow> (nat \<Rightarrow> 's \<Rightarrow> 's option) \<Rightarrow> 's \<Rightarrow> 's option" where
  "for_loop i n body s =
     (if i < n then (case body i s of None \<Rightarrow> None | Some s' \<Rightarrow> for_loop (Suc i) n body s')
      else Some s)"
  by pat_completeness auto
termination
  by (relation "measure (\<lambda>(i, n, body, s). n - i)") auto

declare for_loop.simps [simp del]

subsection \<open>computeIntegralSingle\<close>

text \<open>The body of the inner loop (lines 39 to 41); the state is \<open>(row_sum, integral)\<close>.\<close>

definition single_cell :: "u32 list \<Rightarrow> nat \<Rightarrow> nat \<Rightarrow> nat \<Rightarrow> u64 \<times> u64 list \<Rightarrow> (u64 \<times> u64 list) option" where
  "single_cell img w y x = (\<lambda>(row_sum, integral).
     let base = y * w in
     do {
       p \<leftarrow> vget img (base + x);
       let row_sum = row_sum + ucast p;
       above \<leftarrow> (if y > 0 then vget integral ((y - 1) * w + x) else Some 0);
       integral \<leftarrow> vset integral (base + x) (row_sum + above);
       Some (row_sum, integral)
     })"

text \<open>The body of the outer loop (lines 36 to 42): \<open>row_sum\<close> starts at 0 in every row.\<close>

definition single_row :: "u32 list \<Rightarrow> nat \<Rightarrow> nat \<Rightarrow> u64 list \<Rightarrow> u64 list option" where
  "single_row img w y integral =
     do {
       (row_sum, integral) \<leftarrow> for_loop 0 w (single_cell img w y) (0, integral);
       Some integral
     }"

definition computeIntegralSingle :: "u32 list \<Rightarrow> nat \<Rightarrow> nat \<Rightarrow> u64 list \<Rightarrow> u64 list option" where
  "computeIntegralSingle img w h integral =
     (if w = 0 \<or> h = 0 then Some []
      else for_loop 0 h (single_row img w) (replicate (w * h) 0))"

subsection \<open>computeIntegralMulti\<close>

text \<open>Phase 1, the lambda \<^verbatim>\<open>worker_rows\<close>: prefix sums along each row of the worker's block.\<close>

definition rows_cell :: "u32 list \<Rightarrow> nat \<Rightarrow> nat \<Rightarrow> u64 \<times> u64 list \<Rightarrow> (u64 \<times> u64 list) option" where
  "rows_cell img base x = (\<lambda>(s, rowCum).
     do {
       p \<leftarrow> vget img (base + x);
       let s = s + ucast p;
       rowCum \<leftarrow> vset rowCum (base + x) s;
       Some (s, rowCum)
     })"

definition rows_row :: "u32 list \<Rightarrow> nat \<Rightarrow> nat \<Rightarrow> u64 list \<Rightarrow> u64 list option" where
  "rows_row img w y rowCum =
     do {
       (s, rowCum) \<leftarrow> for_loop 0 w (rows_cell img (y * w)) (0, rowCum);
       Some rowCum
     }"

definition worker_rows :: "u32 list \<Rightarrow> nat \<Rightarrow> nat \<Rightarrow> nat \<Rightarrow> nat \<Rightarrow> u64 list \<Rightarrow> u64 list option" where
  "worker_rows img w h num_threads tid rowCum =
     (let rows_per = (h + num_threads - 1) div num_threads;
          y0 = tid * rows_per;
          y1 = min h (y0 + rows_per)
      in for_loop y0 y1 (rows_row img w) rowCum)"

text \<open>Phase 2, the lambda \<^verbatim>\<open>worker_cols\<close>: prefix sums down each column of the worker's block.\<close>

definition cols_cell :: "u64 list \<Rightarrow> nat \<Rightarrow> nat \<Rightarrow> nat \<Rightarrow> u64 \<times> u64 list \<Rightarrow> (u64 \<times> u64 list) option" where
  "cols_cell rowCum w x y = (\<lambda>(s, integral).
     do {
       r \<leftarrow> vget rowCum (y * w + x);
       let s = s + r;
       integral \<leftarrow> vset integral (y * w + x) s;
       Some (s, integral)
     })"

definition cols_col :: "u64 list \<Rightarrow> nat \<Rightarrow> nat \<Rightarrow> nat \<Rightarrow> u64 list \<Rightarrow> u64 list option" where
  "cols_col rowCum w h x integral =
     do {
       (s, integral) \<leftarrow> for_loop 0 h (cols_cell rowCum w x) (0, integral);
       Some integral
     }"

definition worker_cols :: "u64 list \<Rightarrow> nat \<Rightarrow> nat \<Rightarrow> nat \<Rightarrow> nat \<Rightarrow> u64 list \<Rightarrow> u64 list option" where
  "worker_cols rowCum w h num_threads tid integral =
     (let cols_per = (w + num_threads - 1) div num_threads;
          x0 = tid * cols_per;
          x1 = min w (x0 + cols_per)
      in for_loop x0 x1 (cols_col rowCum w h) integral)"

text \<open>
  \<^verbatim>\<open>num_threads\<close> is a signed \<^verbatim>\<open>int\<close>; after the clamp of line 48 it is at least 1 and
  is used as a count. The two loops over \<open>t\<close> start the workers of a phase; the joins
  end the phase.
\<close>

definition computeIntegralMulti :: "u32 list \<Rightarrow> nat \<Rightarrow> nat \<Rightarrow> u64 list \<Rightarrow> int \<Rightarrow> u64 list option" where
  "computeIntegralMulti img w h integral num_threads =
     (if w = 0 \<or> h = 0 then Some []
      else
        let num_threads = (if num_threads < 1 then 1 else num_threads);
            integral = replicate (w * h) 0;
            rowCum = replicate (w * h) 0
        in do {
          rowCum \<leftarrow> for_loop 0 (nat num_threads) (worker_rows img w h (nat num_threads)) rowCum;
          for_loop 0 (nat num_threads) (worker_cols rowCum w h (nat num_threads)) integral
        })"

text \<open>
  The threads of a phase run concurrently. \<open>computeIntegralMulti\<close> above runs the workers
  to completion one after the other in the order in which they are started;
  \<open>computeIntegralMulti_order\<close> is the same builder with the workers of the two phases
  run in the orders given by two lists of thread indices, for the statement that the
  order does not change the table.
\<close>

fun run_workers :: "(nat \<Rightarrow> 's \<Rightarrow> 's option) \<Rightarrow> nat list \<Rightarrow> 's \<Rightarrow> 's option" where
  "run_workers worker [] s = Some s"
| "run_workers worker (tid # tids) s =
     (case worker tid s of None \<Rightarrow> None | Some s' \<Rightarrow> run_workers worker tids s')"

definition computeIntegralMulti_order ::
  "nat list \<Rightarrow> nat list \<Rightarrow> u32 list \<Rightarrow> nat \<Rightarrow> nat \<Rightarrow> u64 list \<Rightarrow> int \<Rightarrow> u64 list option" where
  "computeIntegralMulti_order rows_order cols_order img w h integral num_threads =
     (if w = 0 \<or> h = 0 then Some []
      else
        let num_threads = (if num_threads < 1 then 1 else num_threads);
            integral = replicate (w * h) 0;
            rowCum = replicate (w * h) 0
        in do {
          rowCum \<leftarrow> run_workers (worker_rows img w h (nat num_threads)) rows_order rowCum;
          run_workers (worker_cols rowCum w h (nat num_threads)) cols_order integral
        })"

subsection \<open>computeIntegralNaive\<close>

text \<open>
  Line 125: \<^verbatim>\<open>for(i=0;i<=x;++i) for(j=0;j<=y;++j) s += img[j*w + i]\<close>; the bound
  \<^verbatim>\<open>i <= x\<close> is \<open>i < x + 1\<close>.
\<close>

definition naive_add :: "u32 list \<Rightarrow> nat \<Rightarrow> nat \<Rightarrow> nat \<Rightarrow> u64 \<Rightarrow> u64 option" where
  "naive_add img w i j s = do { p \<leftarrow> vget img (j * w + i); Some (s + ucast p) }"

definition naive_column :: "u32 list \<Rightarrow> nat \<Rightarrow> nat \<Rightarrow> nat \<Rightarrow> u64 \<Rightarrow> u64 option" where
  "naive_column img w y i s = for_loop 0 (y + 1) (naive_add img w i) s"

definition naive_cell :: "u32 list \<Rightarrow> nat \<Rightarrow> nat \<Rightarrow> nat \<Rightarrow> u64 list \<Rightarrow> u64 list option" where
  "naive_cell img w y x integral =
     do {
       s \<leftarrow> for_loop 0 (x + 1) (naive_column img w y) 0;
       vset integral (y * w + x) s
     }"

definition naive_row :: "u32 list \<Rightarrow> nat \<Rightarrow> nat \<Rightarrow> u64 list \<Rightarrow> u64 list option" where
  "naive_row img w y integral = for_loop 0 w (naive_cell img w y) integral"

definition computeIntegralNaive :: "u32 list \<Rightarrow> nat \<Rightarrow> nat \<Rightarrow> u64 list \<Rightarrow> u64 list option" where
  "computeIntegralNaive img w h integral =
     (if w = 0 \<or> h = 0 then Some []
      else for_loop 0 h (naive_row img w) (replicate (w * h) 0))"

subsection \<open>equalIntegral\<close>

text \<open>
  The loop of line 142 from index \<open>i\<close> on: it returns \<^verbatim>\<open>false\<close> at the first index
  where the tables differ.
\<close>

function equal_from :: "u64 list \<Rightarrow> u64 list \<Rightarrow> nat \<Rightarrow> bool option" where
  "equal_from a b i =
     (if i < length a then
        (case vget a i of None \<Rightarrow> None | Some ai \<Rightarrow>
          (case vget b i of None \<Rightarrow> None | Some bi \<Rightarrow>
            if ai \<noteq> bi then Some False else equal_from a b (Suc i)))
      else Some True)"
  by pat_completeness auto
termination
  by (relation "measure (\<lambda>(a, b, i). length a - i)") auto

declare equal_from.simps [simp del]

definition equalIntegral :: "u64 list \<Rightarrow> u64 list \<Rightarrow> bool option" where
  "equalIntegral a b = (if length a \<noteq> length b then Some False else equal_from a b 0)"

subsection \<open>The cross-validation of main\<close>

text \<open>
  \<^verbatim>\<open>main\<close> from line 177 on, with the command line already parsed into \<open>w\<close>, \<open>h\<close>,
  \<open>threads\<close>, \<open>runs\<close> and \<open>method\<close>, and \<open>img\<close> the image that \<^verbatim>\<open>randImage\<close> produced
  (the random generator is the standard library's and is not modelled). The result is how
  the process ends: the uncaught \<^verbatim>\<open>std::invalid_argument\<close> of line 177, a faulting vector
  access, or an exit status together with the benchmarks that ran before it, each with
  its number of runs. Timing and the text written to \<^verbatim>\<open>cerr\<close> are not modelled. The build
  without OpenMP is the one modelled.

  \<open>main_with\<close> takes the two builders it calls as parameters, so that the check of line
  192 can be stated for tables that differ; \<open>main\<close> is the program's instance.
\<close>

datatype outcome = Threw_invalid_argument | Out_of_bounds | Exit int "(string \<times> int) list"

definition main_with ::
  "(u32 list \<Rightarrow> nat \<Rightarrow> nat \<Rightarrow> u64 list \<Rightarrow> u64 list option) \<Rightarrow>
   (u32 list \<Rightarrow> nat \<Rightarrow> nat \<Rightarrow> u64 list \<Rightarrow> int \<Rightarrow> u64 list option) \<Rightarrow>
   u32 list \<Rightarrow> nat \<Rightarrow> nat \<Rightarrow> int \<Rightarrow> int \<Rightarrow> string \<Rightarrow> outcome" where
  "main_with single multi img w h threads runs method =
     (if w = 0 \<or> h = 0 then Threw_invalid_argument
      else
        let runs = (if runs \<le> 0 then 1 else runs);
            threads = (if threads \<le> 0 then 1 else threads)
        in
          (case single img w h [] of None \<Rightarrow> Out_of_bounds | Some I_single \<Rightarrow>
            (case multi img w h [] threads of None \<Rightarrow> Out_of_bounds | Some I_multi \<Rightarrow>
              (case equalIntegral I_single I_multi of None \<Rightarrow> Out_of_bounds | Some same \<Rightarrow>
                if \<not> same then Exit 2 []
                else Exit 0
                  ((if method = ''both'' \<or> method = ''single'' then [(''Single'', runs)] else []) @
                   (if method = ''both'' \<or> method = ''multi'' then [(''Multi'', runs)] else []))))))"

definition main :: "u32 list \<Rightarrow> nat \<Rightarrow> nat \<Rightarrow> int \<Rightarrow> int \<Rightarrow> string \<Rightarrow> outcome" where
  "main = main_with computeIntegralSingle computeIntegralMulti"

subsection \<open>The rectangle query of the test suite\<close>

text \<open>
  The lambda \<^verbatim>\<open>rect\<close> of \<^verbatim>\<open>test_rect_sum_property\<close> (tests/test_integral.cpp, lines 39 to
  49), over the image \<open>img\<close>, its table \<open>I\<close> and the width \<open>w\<close> that the lambda captures.
  It returns the pair of the inclusion-exclusion value and the brute-force sum; the
  subtractions are those of \<^verbatim>\<open>u64\<close> and wrap. The test calls it with coordinates that are
  non-negative and below \<open>w = h = 10\<close>; they are natural numbers here.
\<close>

definition rect_add :: "u32 list \<Rightarrow> nat \<Rightarrow> nat \<Rightarrow> nat \<Rightarrow> u64 \<Rightarrow> u64 option" where
  "rect_add img w y x sref = do { p \<leftarrow> vget img (y * w + x); Some (sref + ucast p) }"

definition rect :: "u32 list \<Rightarrow> u64 list \<Rightarrow> nat \<Rightarrow> nat \<Rightarrow> nat \<Rightarrow> nat \<Rightarrow> nat \<Rightarrow> (u64 \<times> u64) option" where
  "rect img I w x0 y0 x1 y1 =
     do {
       A \<leftarrow> vget I (y1 * w + x1);
       B \<leftarrow> (if y0 > 0 then vget I ((y0 - 1) * w + x1) else Some 0);
       C \<leftarrow> (if x0 > 0 then vget I (y1 * w + (x0 - 1)) else Some 0);
       D \<leftarrow> (if x0 > 0 \<and> y0 > 0 then vget I ((y0 - 1) * w + (x0 - 1)) else Some 0);
       let sum = A - B - C + D;
       sref \<leftarrow> for_loop y0 (y1 + 1) (\<lambda>y. for_loop x0 (x1 + 1) (rect_add img w y)) 0;
       Some (sum, sref)
     }"

subsection \<open>computeIntegralSingle with overflow detection\<close>

text \<open>
  C++ does not report the wrap-around of an unsigned addition. To state that no
  accumulation of the sequential builder wraps, \<open>computeIntegralSingle_nowrap\<close> is
  \<open>computeIntegralSingle\<close> with each of the two \<^verbatim>\<open>u64\<close> additions (lines 39 and 41)
  replaced by an addition that faults when the exact sum does not fit 64 bits; nothing
  else differs.
\<close>

definition add_nowrap :: "u64 \<Rightarrow> u64 \<Rightarrow> u64 option" where
  "add_nowrap a b = (if unat a + unat b < 2 ^ 64 then Some (a + b) else None)"

definition single_cell_nowrap :: "u32 list \<Rightarrow> nat \<Rightarrow> nat \<Rightarrow> nat \<Rightarrow> u64 \<times> u64 list \<Rightarrow> (u64 \<times> u64 list) option" where
  "single_cell_nowrap img w y x = (\<lambda>(row_sum, integral).
     let base = y * w in
     do {
       p \<leftarrow> vget img (base + x);
       row_sum \<leftarrow> add_nowrap row_sum (ucast p);
       above \<leftarrow> (if y > 0 then vget integral ((y - 1) * w + x) else Some 0);
       cell \<leftarrow> add_nowrap row_sum above;
       integral \<leftarrow> vset integral (base + x) cell;
       Some (row_sum, integral)
     })"

definition single_row_nowrap :: "u32 list \<Rightarrow> nat \<Rightarrow> nat \<Rightarrow> u64 list \<Rightarrow> u64 list option" where
  "single_row_nowrap img w y integral =
     do {
       (row_sum, integral) \<leftarrow> for_loop 0 w (single_cell_nowrap img w y) (0, integral);
       Some integral
     }"

definition computeIntegralSingle_nowrap :: "u32 list \<Rightarrow> nat \<Rightarrow> nat \<Rightarrow> u64 list \<Rightarrow> u64 list option" where
  "computeIntegralSingle_nowrap img w h integral =
     (if w = 0 \<or> h = 0 then Some []
      else for_loop 0 h (single_row_nowrap img w) (replicate (w * h) 0))"

section \<open>What the tables are compared with\<close>

text \<open>
  These definitions are not translated from the code: they are the sums that the
  statements about the builders refer to, and the invariants of the loops.

  \<open>row_prefix img w y n\<close> is the sum of the first \<open>n\<close> samples of row \<open>y\<close>, and
  \<open>sat_spec img w x y\<close> the sum of the samples in the rectangle from the origin to
  column \<open>x\<close> and row \<open>y\<close>, both in \<^verbatim>\<open>u64\<close> arithmetic; \<open>sat_table\<close> lists \<open>sat_spec\<close>
  in row-major order, and \<open>box\<close> is \<open>sat_spec\<close> with exclusive bounds.
  \<open>row_exact\<close>, \<open>sat_exact\<close> and \<open>grid_total\<close> are the same sums over the natural
  numbers, where nothing wraps.
\<close>

definition row_prefix :: "u32 list \<Rightarrow> nat \<Rightarrow> nat \<Rightarrow> nat \<Rightarrow> u64" where
  "row_prefix img w y n = (\<Sum>i<n. ucast (img ! (y * w + i)))"

definition sat_spec :: "u32 list \<Rightarrow> nat \<Rightarrow> nat \<Rightarrow> nat \<Rightarrow> u64" where
  "sat_spec img w x y = (\<Sum>j\<le>y. \<Sum>i\<le>x. ucast (img ! (j * w + i)))"

definition sat_table :: "u32 list \<Rightarrow> nat \<Rightarrow> nat \<Rightarrow> u64 list" where
  "sat_table img w h = map (\<lambda>k. sat_spec img w (k mod w) (k div w)) [0..<w * h]"


definition row_exact :: "u32 list \<Rightarrow> nat \<Rightarrow> nat \<Rightarrow> nat \<Rightarrow> nat" where
  "row_exact img w y n = (\<Sum>i<n. unat (img ! (y * w + i)))"

definition sat_exact :: "u32 list \<Rightarrow> nat \<Rightarrow> nat \<Rightarrow> nat \<Rightarrow> nat" where
  "sat_exact img w x y = (\<Sum>j\<le>y. \<Sum>i\<le>x. unat (img ! (j * w + i)))"

definition grid_total :: "u32 list \<Rightarrow> nat \<Rightarrow> nat \<Rightarrow> nat" where
  "grid_total img w h = (\<Sum>k<w * h. unat (img ! k))"

text \<open>
  Invariants. A table is filled up to index \<open>n\<close> when its first \<open>n\<close> cells hold their
  final values (\<open>table_inv\<close>); the sequential and the naive builder fill the table in
  index order. The workers of the parallel builder fill blocks of rows and of columns:
  \<open>rows_done\<close> and \<open>cols_done\<close> say that the cells \<open>(y, x)\<close> selected by a predicate
  \<open>D\<close> hold their final values, the row sums for the table of phase 1 and the
  rectangle sums for the table of phase 2, and \<open>block h n tid\<close> selects the rows of
  worker \<open>tid\<close> out of \<open>n\<close> workers over \<open>h\<close> rows (columns, with \<open>w\<close> for \<open>h\<close>).
\<close>

definition table_inv :: "u32 list \<Rightarrow> nat \<Rightarrow> nat \<Rightarrow> nat \<Rightarrow> u64 list \<Rightarrow> bool" where
  "table_inv img w h n integral \<longleftrightarrow>
     length integral = w * h \<and> (\<forall>k < n. integral ! k = sat_spec img w (k mod w) (k div w))"

definition single_inv :: "u32 list \<Rightarrow> nat \<Rightarrow> nat \<Rightarrow> nat \<Rightarrow> nat \<Rightarrow> u64 \<times> u64 list \<Rightarrow> bool" where
  "single_inv img w h y x = (\<lambda>(row_sum, integral).
     row_sum = row_prefix img w y x \<and> table_inv img w h (y * w + x) integral)"

definition rows_done :: "u32 list \<Rightarrow> nat \<Rightarrow> nat \<Rightarrow> (nat \<Rightarrow> nat \<Rightarrow> bool) \<Rightarrow> u64 list \<Rightarrow> bool" where
  "rows_done img w h D rowCum \<longleftrightarrow>
     length rowCum = w * h \<and>
     (\<forall>y<h. \<forall>x<w. D y x \<longrightarrow> rowCum ! (y * w + x) = row_prefix img w y (Suc x))"

definition cols_done :: "u32 list \<Rightarrow> nat \<Rightarrow> nat \<Rightarrow> (nat \<Rightarrow> nat \<Rightarrow> bool) \<Rightarrow> u64 list \<Rightarrow> bool" where
  "cols_done img w h D integral \<longleftrightarrow>
     length integral = w * h \<and>
     (\<forall>y<h. \<forall>x<w. D y x \<longrightarrow> integral ! (y * w + x) = sat_spec img w x y)"

definition block :: "nat \<Rightarrow> nat \<Rightarrow> nat \<Rightarrow> nat \<Rightarrow> bool" where
  "block h n tid y \<longleftrightarrow>
     tid * ((h + n - 1) div n) \<le> y \<and> y < min h (tid * ((h + n - 1) div n) + (h + n - 1) div n)"

section \<open>Loops and indices\<close>

lemma vget_Some: "i < length v \<Longrightarrow> vget v i = Some (v ! i)"
  by (simp add: vget_def)

lemma vset_Some: "i < length v \<Longrightarrow> vset v i a = Some (v[i := a])"
  by (simp add: vset_def)

lemma for_loop_done: "n \<le> i \<Longrightarrow> for_loop i n body s = Some s"
  by (simp add: for_loop.simps)

lemma for_loop_step:
  "i < n \<Longrightarrow> for_loop i n body s = Option.bind (body i s) (for_loop (Suc i) n body)"
  by (subst for_loop.simps) (simp split: option.splits)

text \<open>
  The rule for a loop that cannot fault: an invariant that every iteration keeps while
  it returns a state holds when the loop ends, and the loop does end with a state.
\<close>

lemma for_loop_inv:
  assumes "I i s" and "i \<le> n"
    and step: "\<And>k t. i \<le> k \<Longrightarrow> k < n \<Longrightarrow> I k t \<Longrightarrow> \<exists>t'. body k t = Some t' \<and> I (Suc k) t'"
  shows "\<exists>s'. for_loop i n body s = Some s' \<and> I n s'"
  using assms
proof (induction "n - i" arbitrary: i s)
  case 0
  then show ?case by (simp add: for_loop_done)
next
  case (Suc d)
  then have lt: "i < n" by simp
  from Suc.prems(3) [OF order_refl lt Suc.prems(1)]
  obtain t where t: "body i s = Some t" "I (Suc i) t" by blast
  have "\<exists>s'. for_loop (Suc i) n body t = Some s' \<and> I n s'"
  proof (rule Suc.hyps(1))
    show "d = n - Suc i" using Suc.hyps(2) by simp
    show "I (Suc i) t" by (rule t)
    show "Suc i \<le> n" using lt by simp
    show "\<And>k u. Suc i \<le> k \<Longrightarrow> k < n \<Longrightarrow> I k u \<Longrightarrow> \<exists>t'. body k u = Some t' \<and> I (Suc k) t'"
      using Suc.prems(3) by simp
  qed
  then show ?case by (simp add: for_loop_step [OF lt] t)
qed

lemma idx_bound: "(x::nat) < w \<Longrightarrow> y < h \<Longrightarrow> y * w + x < w * h"
proof -
  assume x: "x < w" and y: "y < h"
  have "Suc y * w \<le> h * w" using y by (intro mult_le_mono1) simp
  then show ?thesis using x by (simp add: mult.commute)
qed

lemma ceil_div_cover: "0 < (n::nat) \<Longrightarrow> h \<le> n * ((h + n - 1) div n)"
proof -
  assume n: "0 < n"
  have "h + n - 1 = n * ((h + n - 1) div n) + (h + n - 1) mod n" by simp
  moreover have "(h + n - 1) mod n < n" using n by simp
  ultimately show ?thesis by linarith
qed

text \<open>
  The largest value a worker computes, \<open>y0 + rows_per\<close>, stays below the number of rows
  plus the number of workers.
\<close>

lemma worker_bounds:
  fixes n tid h :: nat
  assumes "0 < n" and "tid < n"
  shows "tid * ((h + n - 1) div n) + (h + n - 1) div n \<le> h + n - 1"
proof -
  have "tid * ((h + n - 1) div n) + (h + n - 1) div n = Suc tid * ((h + n - 1) div n)"
    by simp
  also have "\<dots> \<le> n * ((h + n - 1) div n)"
    using assms(2) by (intro mult_le_mono1) simp
  also have "\<dots> \<le> h + n - 1" by simp
  finally show ?thesis .
qed

text \<open>A counting loop runs its body on the indices in order.\<close>

lemma for_loop_upt: "for_loop i n body s = run_workers body [i..<n] s"
proof (induction "n - i" arbitrary: i s)
  case 0
  then show ?case by (simp add: for_loop_done)
next
  case (Suc d)
  then have lt: "i < n" by simp
  have "for_loop (Suc i) n body t = run_workers body [Suc i..<n] t" for t
    using Suc.hyps(2) by (intro Suc.hyps(1)) simp
  then show ?case
    by (cases "body i s") (simp_all add: for_loop_step [OF lt] upt_conv_Cons [OF lt])
qed

text \<open>Row-major indices identify the cell.\<close>

lemma idx_inj:
  assumes "(x::nat) < w" "x' < w" "y * w + x = y' * w + x'"
  shows "y = y' \<and> x = x'"
proof -
  have "(y * w + x) div w = (y' * w + x') div w" "(y * w + x) mod w = (y' * w + x') mod w"
    using assms(3) by simp_all
  then show ?thesis using assms(1,2) by simp
qed

text \<open>Every row belongs to the block of some worker.\<close>

lemma row_has_worker:
  fixes n y h :: nat
  assumes n: "0 < n" and y: "y < h"
  defines "rows_per \<equiv> (h + n - 1) div n"
  shows "y div rows_per < n" "y div rows_per * rows_per \<le> y"
    "y < min h (y div rows_per * rows_per + rows_per)"
proof -
  have cover: "h \<le> n * rows_per"
    unfolding rows_per_def using ceil_div_cover [OF n, of h] by simp
  then have pos: "0 < rows_per" using y by (cases "rows_per = 0") simp_all
  have "y < n * rows_per" using cover y by simp
  then show "y div rows_per < n" by (rule less_mult_imp_div_less)
  show "y div rows_per * rows_per \<le> y" by simp
  have "y < y div rows_per * rows_per + rows_per"
    using dividend_less_div_times [OF pos, of y] by simp
  then show "y < min h (y div rows_per * rows_per + rows_per)" using y by simp
qed

section \<open>The sequential builder\<close>

lemma row_prefix_Suc:
  "row_prefix img w y (Suc n) = row_prefix img w y n + ucast (img ! (y * w + n))"
  by (simp add: row_prefix_def)

lemma sat_spec_rows: "sat_spec img w x y = (\<Sum>j\<le>y. row_prefix img w j (Suc x))"
  by (simp add: sat_spec_def row_prefix_def lessThan_Suc_atMost)

lemma sat_spec_step:
  "row_prefix img w y (Suc x) + (if y > 0 then sat_spec img w x (y - 1) else 0) = sat_spec img w x y"
  by (cases y) (simp_all add: sat_spec_rows add.commute)

lemma sat_table_length: "length (sat_table img w h) = w * h"
  by (simp add: sat_table_def)

lemma sat_table_nth: "x < w \<Longrightarrow> y < h \<Longrightarrow> sat_table img w h ! (y * w + x) = sat_spec img w x y"
  using idx_bound [of x w y h] by (simp add: sat_table_def)

lemma table_inv_full: "table_inv img w h (w * h) integral \<Longrightarrow> integral = sat_table img w h"
  by (auto simp: table_inv_def sat_table_def intro: nth_equalityI)

text \<open>Writing the next cell of a table that is filled up to that cell.\<close>

lemma table_inv_next:
  assumes inv: "table_inv img w h (y * w + x) integral" and x: "x < w" and y: "y < h"
  shows "table_inv img w h (y * w + Suc x) (integral[y * w + x := sat_spec img w x y])"
  unfolding table_inv_def
proof (intro conjI allI impI)
  show "length (integral[y * w + x := sat_spec img w x y]) = w * h"
    using inv by (simp add: table_inv_def)
next
  fix k assume k: "k < y * w + Suc x"
  have idx: "y * w + x < length integral"
    using inv idx_bound [OF x y] by (simp add: table_inv_def)
  show "integral[y * w + x := sat_spec img w x y] ! k = sat_spec img w (k mod w) (k div w)"
  proof (cases "k = y * w + x")
    case True
    then show ?thesis using idx x by simp
  next
    case False
    then show ?thesis using k inv by (simp add: table_inv_def)
  qed
qed

text \<open>Line 40: the cell above is final, or absent in row 0.\<close>

lemma single_above:
  assumes y: "y < h" and x: "x < w" and inv: "table_inv img w h (y * w + x) integral"
  shows "(if y > 0 then vget integral ((y - 1) * w + x) else Some 0) =
         Some (if y > 0 then sat_spec img w x (y - 1) else 0)"
proof (cases y)
  case 0
  then show ?thesis by simp
next
  case (Suc y')
  from inv have li: "length integral = w * h"
    and pre: "\<And>k. k < y * w + x \<Longrightarrow> integral ! k = sat_spec img w (k mod w) (k div w)"
    by (simp_all add: table_inv_def)
  have "y' * w + x < w * h" using x y Suc by (intro idx_bound) simp_all
  moreover have "y' * w + x < y * w + x" using Suc x by simp
  then have "integral ! (y' * w + x) = sat_spec img w x y'"
    using pre [of "y' * w + x"] x by simp
  ultimately show ?thesis using Suc by (simp add: vget_Some li)
qed

lemma single_cell_run:
  assumes len: "w * h \<le> length img" and y: "y < h" and x: "x < w"
    and inv: "single_inv img w h y x (row_sum, integral)"
  shows "single_cell img w y x (row_sum, integral) =
         Some (row_prefix img w y (Suc x), integral[y * w + x := sat_spec img w x y])"
proof -
  from inv have rs: "row_sum = row_prefix img w y x"
    and ti: "table_inv img w h (y * w + x) integral"
    by (simp_all add: single_inv_def)
  from ti have li: "length integral = w * h" by (simp add: table_inv_def)
  have idx: "y * w + x < w * h" using x y by (rule idx_bound)
  show ?thesis
    unfolding single_cell_def
    using idx len
    by (simp add: Let_def vget_Some vset_Some li single_above [OF y x ti]
        rs row_prefix_Suc [symmetric] sat_spec_step)
qed

text \<open>
  A row, for any loop body that takes a state with the invariant to the state that
  \<open>single_cell\<close> produces, and the table, for any row function that fills one more row.
\<close>

lemma row_loop:
  assumes body: "\<And>x row_sum integral. x < w \<Longrightarrow> single_inv img w h y x (row_sum, integral) \<Longrightarrow>
      body x (row_sum, integral) =
        Some (row_prefix img w y (Suc x), integral[y * w + x := sat_spec img w x y])"
    and y: "y < h" and inv: "table_inv img w h (y * w) integral"
  shows "\<exists>row_sum integral'. for_loop 0 w body (0, integral) = Some (row_sum, integral') \<and>
           table_inv img w h (Suc y * w) integral'"
proof -
  have "\<exists>st'. for_loop 0 w body (0, integral) = Some st' \<and> single_inv img w h y w st'"
  proof (rule for_loop_inv [where I = "single_inv img w h y"])
    show "single_inv img w h y 0 (0, integral)"
      using inv by (simp add: single_inv_def row_prefix_def)
  next
    show "0 \<le> w" by simp
  next
    fix k t assume k: "k < w" and t: "single_inv img w h y k t"
    obtain row_sum tab where st: "t = (row_sum, tab)" by (cases t)
    have "table_inv img w h (y * w + Suc k) (tab[y * w + k := sat_spec img w k y])"
      using t k y by (intro table_inv_next) (simp_all add: st single_inv_def)
    then show "\<exists>t'. body k t = Some t' \<and> single_inv img w h y (Suc k) t'"
      using body [OF k t [unfolded st]] by (simp add: st single_inv_def)
  qed
  then show ?thesis by (auto simp: single_inv_def add.commute)
qed

lemma table_loop:
  assumes row: "\<And>y t. y < h \<Longrightarrow> table_inv img w h (y * w) t \<Longrightarrow>
      \<exists>t'. rowf y t = Some t' \<and> table_inv img w h (Suc y * w) t'"
  shows "for_loop 0 h rowf (replicate (w * h) 0) = Some (sat_table img w h)"
proof -
  have "\<exists>t. for_loop 0 h rowf (replicate (w * h) 0) = Some t \<and> table_inv img w h (h * w) t"
  proof (rule for_loop_inv [where I = "\<lambda>y. table_inv img w h (y * w)"])
    show "table_inv img w h (0 * w) (replicate (w * h) 0)" by (simp add: table_inv_def)
  next
    show "0 \<le> h" by simp
  next
    fix k t assume "k < h" "table_inv img w h (k * w) t"
    then show "\<exists>t'. rowf k t = Some t' \<and> table_inv img w h (Suc k * w) t'"
      by (rule row)
  qed
  then obtain t where "for_loop 0 h rowf (replicate (w * h) 0) = Some t"
    and "table_inv img w h (w * h) t" by (auto simp: mult.commute)
  then show ?thesis by (simp add: table_inv_full)
qed

lemma single_row_step:
  assumes len: "w * h \<le> length img" and y: "y < h"
    and inv: "table_inv img w h (y * w) integral"
  shows "\<exists>integral'. single_row img w y integral = Some integral' \<and>
           table_inv img w h (Suc y * w) integral'"
proof -
  have "\<exists>row_sum integral'.
          for_loop 0 w (single_cell img w y) (0, integral) = Some (row_sum, integral') \<and>
          table_inv img w h (Suc y * w) integral'"
    using y inv by (intro row_loop single_cell_run [OF len])
  then show ?thesis by (auto simp: single_row_def)
qed

lemma single_correct:
  assumes len: "w * h \<le> length img"
  shows "computeIntegralSingle img w h out = Some (sat_table img w h)"
proof (cases "w = 0 \<or> h = 0")
  case True
  then show ?thesis by (auto simp: computeIntegralSingle_def sat_table_def)
next
  case False
  have "for_loop 0 h (single_row img w) (replicate (w * h) 0) = Some (sat_table img w h)"
    by (rule table_loop) (rule single_row_step [OF len])
  with False show ?thesis by (simp add: computeIntegralSingle_def)
qed

section \<open>The parallel builder\<close>

text \<open>Writing the final value of a cell keeps the cells that are done and adds that cell.\<close>

lemma rows_done_update:
  assumes inv: "rows_done img w h D rowCum" and x: "x < w" and y: "y < h"
    and D': "\<And>y' x'. D' y' x' \<Longrightarrow> D y' x' \<or> (y' = y \<and> x' = x)"
  shows "rows_done img w h D' (rowCum[y * w + x := row_prefix img w y (Suc x)])"
  unfolding rows_done_def
proof (intro conjI allI impI)
  show "length (rowCum[y * w + x := row_prefix img w y (Suc x)]) = w * h"
    using inv by (simp add: rows_done_def)
next
  fix y' x' assume c: "y' < h" "x' < w" "D' y' x'"
  have idx: "y * w + x < length rowCum"
    using inv idx_bound [OF x y] by (simp add: rows_done_def)
  show "rowCum[y * w + x := row_prefix img w y (Suc x)] ! (y' * w + x') =
        row_prefix img w y' (Suc x')"
  proof (cases "y' = y \<and> x' = x")
    case True
    then show ?thesis using idx by simp
  next
    case False
    then have "y * w + x \<noteq> y' * w + x'" using idx_inj [OF x c(2)] by blast
    moreover have "D y' x'" using D' [OF c(3)] False by blast
    ultimately show ?thesis using inv c by (simp add: rows_done_def)
  qed
qed

lemma cols_done_update:
  assumes inv: "cols_done img w h D integral" and x: "x < w" and y: "y < h"
    and D': "\<And>y' x'. D' y' x' \<Longrightarrow> D y' x' \<or> (y' = y \<and> x' = x)"
  shows "cols_done img w h D' (integral[y * w + x := sat_spec img w x y])"
  unfolding cols_done_def
proof (intro conjI allI impI)
  show "length (integral[y * w + x := sat_spec img w x y]) = w * h"
    using inv by (simp add: cols_done_def)
next
  fix y' x' assume c: "y' < h" "x' < w" "D' y' x'"
  have idx: "y * w + x < length integral"
    using inv idx_bound [OF x y] by (simp add: cols_done_def)
  show "integral[y * w + x := sat_spec img w x y] ! (y' * w + x') = sat_spec img w x' y'"
  proof (cases "y' = y \<and> x' = x")
    case True
    then show ?thesis using idx by simp
  next
    case False
    then have "y * w + x \<noteq> y' * w + x'" using idx_inj [OF x c(2)] by blast
    moreover have "D y' x'" using D' [OF c(3)] False by blast
    ultimately show ?thesis using inv c by (simp add: cols_done_def)
  qed
qed

lemma rows_done_weaken:
  "rows_done img w h D t \<Longrightarrow> (\<And>y x. y < h \<Longrightarrow> x < w \<Longrightarrow> D' y x \<Longrightarrow> D y x) \<Longrightarrow> rows_done img w h D' t"
  unfolding rows_done_def by blast

lemma cols_done_weaken:
  "cols_done img w h D t \<Longrightarrow> (\<And>y x. y < h \<Longrightarrow> x < w \<Longrightarrow> D' y x \<Longrightarrow> D y x) \<Longrightarrow> cols_done img w h D' t"
  unfolding cols_done_def by blast

subsection \<open>Phase 1: row sums\<close>

lemma rows_row_step:
  assumes len: "w * h \<le> length img" and y: "y < h"
    and inv: "rows_done img w h D rowCum"
  shows "\<exists>rowCum'. rows_row img w y rowCum = Some rowCum' \<and>
           rows_done img w h (\<lambda>y' x'. D y' x' \<or> y' = y) rowCum'"
proof -
  let ?I = "\<lambda>x (s, t). s = row_prefix img w y x \<and>
              rows_done img w h (\<lambda>y' x'. D y' x' \<or> (y' = y \<and> x' < x)) t"
  have "\<exists>st'. for_loop 0 w (rows_cell img (y * w)) (0, rowCum) = Some st' \<and> ?I w st'"
  proof (rule for_loop_inv [where I = ?I])
    show "?I 0 (0, rowCum)"
      using inv by (simp add: row_prefix_def)
  next
    show "0 \<le> w" by simp
  next
    fix x st assume x: "x < w" and st: "?I x st"
    obtain s t where [simp]: "st = (s, t)" by (cases st)
    from st have s: "s = row_prefix img w y x"
      and t: "rows_done img w h (\<lambda>y' x'. D y' x' \<or> (y' = y \<and> x' < x)) t" by simp_all
    have idx: "y * w + x < w * h" using x y by (rule idx_bound)
    have lt: "length t = w * h" using t by (simp add: rows_done_def)
    have run: "rows_cell img (y * w) x (s, t) =
               Some (row_prefix img w y (Suc x), t[y * w + x := row_prefix img w y (Suc x)])"
      using idx len by (simp add: rows_cell_def vget_Some vset_Some lt s row_prefix_Suc Let_def)
    have "rows_done img w h (\<lambda>y' x'. D y' x' \<or> (y' = y \<and> x' < Suc x))
            (t[y * w + x := row_prefix img w y (Suc x)])"
      using t x y by (rule rows_done_update) auto
    then show "\<exists>st'. rows_cell img (y * w) x st = Some st' \<and> ?I (Suc x) st'"
      by (simp add: run)
  qed
  then obtain s t where run: "for_loop 0 w (rows_cell img (y * w)) (0, rowCum) = Some (s, t)"
    and t: "rows_done img w h (\<lambda>y' x'. D y' x' \<or> (y' = y \<and> x' < w)) t" by auto
  have "rows_done img w h (\<lambda>y' x'. D y' x' \<or> y' = y) t"
    using t by (rule rows_done_weaken) auto
  then show ?thesis by (simp add: rows_row_def run)
qed

text \<open>A worker adds the rows of its block, whatever is done before it starts.\<close>

lemma worker_rows_step:
  assumes len: "w * h \<le> length img" and inv: "rows_done img w h D rowCum"
  shows "\<exists>rowCum'. worker_rows img w h n tid rowCum = Some rowCum' \<and>
           rows_done img w h (\<lambda>y x. D y x \<or> block h n tid y) rowCum'"
proof -
  define rows_per where "rows_per = (h + n - 1) div n"
  define y0 where "y0 = tid * rows_per"
  define y1 where "y1 = min h (y0 + rows_per)"
  have run: "worker_rows img w h n tid rowCum = for_loop y0 y1 (rows_row img w) rowCum"
    by (simp add: worker_rows_def rows_per_def y0_def y1_def Let_def)
  have blk: "block h n tid y \<longleftrightarrow> y0 \<le> y \<and> y < y1" for y
    by (simp add: block_def y0_def y1_def rows_per_def)
  show ?thesis
  proof (cases "y0 \<le> y1")
    case True
    let ?I = "\<lambda>y. rows_done img w h (\<lambda>y' x'. D y' x' \<or> (y0 \<le> y' \<and> y' < y))"
    have "\<exists>t. for_loop y0 y1 (rows_row img w) rowCum = Some t \<and> ?I y1 t"
    proof (rule for_loop_inv [where I = ?I])
      show "?I y0 rowCum" using inv by (rule rows_done_weaken) auto
    next
      show "y0 \<le> y1" by (rule True)
    next
      fix y t assume y: "y0 \<le> y" "y < y1" and t: "?I y t"
      have "y < h" using y by (simp add: y1_def)
      from rows_row_step [OF len this t] obtain t' where
        t': "rows_row img w y t = Some t'"
          "rows_done img w h (\<lambda>y' x'. (D y' x' \<or> (y0 \<le> y' \<and> y' < y)) \<or> y' = y) t'"
        by blast
      have "?I (Suc y) t'" using t'(2) by (rule rows_done_weaken) (use y in auto)
      with t'(1) show "\<exists>t'. rows_row img w y t = Some t' \<and> ?I (Suc y) t'" by blast
    qed
    then show ?thesis by (simp add: run blk)
  next
    case False
    then have "for_loop y0 y1 (rows_row img w) rowCum = Some rowCum"
      by (simp add: for_loop_done)
    moreover have "rows_done img w h (\<lambda>y x. D y x \<or> block h n tid y) rowCum"
      using inv by (rule rows_done_weaken) (use False in \<open>auto simp: blk\<close>)
    ultimately show ?thesis by (simp add: run)
  qed
qed

lemma run_workers_rows:
  assumes len: "w * h \<le> length img" and inv: "rows_done img w h D rowCum"
  shows "\<exists>rowCum'. run_workers (worker_rows img w h n) tids rowCum = Some rowCum' \<and>
           rows_done img w h (\<lambda>y x. D y x \<or> (\<exists>tid\<in>set tids. block h n tid y)) rowCum'"
  using inv
proof (induction tids arbitrary: D rowCum)
  case Nil
  then show ?case by simp
next
  case (Cons tid tids)
  from worker_rows_step [OF len Cons.prems, of n tid] obtain t where
    t: "worker_rows img w h n tid rowCum = Some t"
      "rows_done img w h (\<lambda>y x. D y x \<or> block h n tid y) t" by blast
  from Cons.IH [OF t(2)] obtain t' where
    t': "run_workers (worker_rows img w h n) tids t = Some t'"
      "rows_done img w h (\<lambda>y x. (D y x \<or> block h n tid y) \<or> (\<exists>tid\<in>set tids. block h n tid y)) t'"
    by blast
  have "rows_done img w h (\<lambda>y x. D y x \<or> (\<exists>tid\<in>set (tid # tids). block h n tid y)) t'"
    using t'(2) by (rule rows_done_weaken) auto
  then show ?case by (simp add: t(1) t'(1))
qed

text \<open>Every row (or column) below \<open>h\<close> lies in the block of a worker below \<open>n\<close>.\<close>

lemma block_cover:
  assumes n: "0 < n" and y: "y < h"
  shows "\<exists>tid<n. block h n tid y"
  using row_has_worker [OF n y] unfolding block_def by blast

lemma rows_done_all:
  "rows_done img w h (\<lambda>y x. True) rowCum \<Longrightarrow> x < w \<Longrightarrow> y < h \<Longrightarrow>
     vget rowCum (y * w + x) = Some (row_prefix img w y (Suc x))"
  using idx_bound [of x w y h] by (simp add: rows_done_def vget_Some)

lemma phase1_any_order:
  assumes len: "w * h \<le> length img" and n: "0 < n" and all: "{..<n} \<subseteq> set tids"
  shows "\<exists>rowCum. run_workers (worker_rows img w h n) tids (replicate (w * h) 0) = Some rowCum \<and>
           rows_done img w h (\<lambda>y x. True) rowCum"
proof -
  have "rows_done img w h (\<lambda>y x. False) (replicate (w * h) 0)"
    by (simp add: rows_done_def)
  from run_workers_rows [OF len this, of n tids] obtain t where
    t: "run_workers (worker_rows img w h n) tids (replicate (w * h) 0) = Some t"
      "rows_done img w h (\<lambda>y x. False \<or> (\<exists>tid\<in>set tids. block h n tid y)) t" by blast
  have "rows_done img w h (\<lambda>y x. True) t"
    using t(2) by (rule rows_done_weaken) (use block_cover [OF n] all in blast)
  with t(1) show ?thesis by blast
qed

subsection \<open>Phase 2: column sums of the row sums\<close>

lemma cols_col_step:
  assumes rc: "rows_done img w h (\<lambda>y x. True) rowCum" and x: "x < w"
    and inv: "cols_done img w h D integral"
  shows "\<exists>integral'. cols_col rowCum w h x integral = Some integral' \<and>
           cols_done img w h (\<lambda>y' x'. D y' x' \<or> x' = x) integral'"
proof -
  let ?I = "\<lambda>y (s, t). s = (\<Sum>j<y. row_prefix img w j (Suc x)) \<and>
              cols_done img w h (\<lambda>y' x'. D y' x' \<or> (x' = x \<and> y' < y)) t"
  have "\<exists>st'. for_loop 0 h (cols_cell rowCum w x) (0, integral) = Some st' \<and> ?I h st'"
  proof (rule for_loop_inv [where I = ?I])
    show "?I 0 (0, integral)" using inv by simp
  next
    show "0 \<le> h" by simp
  next
    fix y st assume y: "y < h" and st: "?I y st"
    obtain s t where [simp]: "st = (s, t)" by (cases st)
    from st have s: "s = (\<Sum>j<y. row_prefix img w j (Suc x))"
      and t: "cols_done img w h (\<lambda>y' x'. D y' x' \<or> (x' = x \<and> y' < y)) t" by simp_all
    have idx: "y * w + x < w * h" using x y by (rule idx_bound)
    have lt: "length t = w * h" using t by (simp add: cols_done_def)
    have val: "s + row_prefix img w y (Suc x) = sat_spec img w x y"
      by (simp add: s sat_spec_rows lessThan_Suc_atMost [symmetric])
    have run: "cols_cell rowCum w x y (s, t) =
               Some (sat_spec img w x y, t[y * w + x := sat_spec img w x y])"
      using idx by (simp add: cols_cell_def rows_done_all [OF rc x y] vset_Some lt val Let_def)
    have "cols_done img w h (\<lambda>y' x'. D y' x' \<or> (x' = x \<and> y' < Suc y))
            (t[y * w + x := sat_spec img w x y])"
      using t x y by (rule cols_done_update) auto
    moreover have "sat_spec img w x y = (\<Sum>j<Suc y. row_prefix img w j (Suc x))"
      by (simp add: sat_spec_rows lessThan_Suc_atMost)
    ultimately show "\<exists>st'. cols_cell rowCum w x y st = Some st' \<and> ?I (Suc y) st'"
      by (simp add: run)
  qed
  then obtain s t where run: "for_loop 0 h (cols_cell rowCum w x) (0, integral) = Some (s, t)"
    and t: "cols_done img w h (\<lambda>y' x'. D y' x' \<or> (x' = x \<and> y' < h)) t" by auto
  have "cols_done img w h (\<lambda>y' x'. D y' x' \<or> x' = x) t"
    using t by (rule cols_done_weaken) auto
  then show ?thesis by (simp add: cols_col_def run)
qed

lemma worker_cols_step:
  assumes rc: "rows_done img w h (\<lambda>y x. True) rowCum" and inv: "cols_done img w h D integral"
  shows "\<exists>integral'. worker_cols rowCum w h n tid integral = Some integral' \<and>
           cols_done img w h (\<lambda>y x. D y x \<or> block w n tid x) integral'"
proof -
  define cols_per where "cols_per = (w + n - 1) div n"
  define x0 where "x0 = tid * cols_per"
  define x1 where "x1 = min w (x0 + cols_per)"
  have run: "worker_cols rowCum w h n tid integral = for_loop x0 x1 (cols_col rowCum w h) integral"
    by (simp add: worker_cols_def cols_per_def x0_def x1_def Let_def)
  have blk: "block w n tid x \<longleftrightarrow> x0 \<le> x \<and> x < x1" for x
    by (simp add: block_def x0_def x1_def cols_per_def)
  show ?thesis
  proof (cases "x0 \<le> x1")
    case True
    let ?I = "\<lambda>x. cols_done img w h (\<lambda>y' x'. D y' x' \<or> (x0 \<le> x' \<and> x' < x))"
    have "\<exists>t. for_loop x0 x1 (cols_col rowCum w h) integral = Some t \<and> ?I x1 t"
    proof (rule for_loop_inv [where I = ?I])
      show "?I x0 integral" using inv by (rule cols_done_weaken) auto
    next
      show "x0 \<le> x1" by (rule True)
    next
      fix x t assume x: "x0 \<le> x" "x < x1" and t: "?I x t"
      have "x < w" using x by (simp add: x1_def)
      from cols_col_step [OF rc this t] obtain t' where
        t': "cols_col rowCum w h x t = Some t'"
          "cols_done img w h (\<lambda>y' x'. (D y' x' \<or> (x0 \<le> x' \<and> x' < x)) \<or> x' = x) t'"
        by blast
      have "?I (Suc x) t'" using t'(2) by (rule cols_done_weaken) (use x in auto)
      with t'(1) show "\<exists>t'. cols_col rowCum w h x t = Some t' \<and> ?I (Suc x) t'" by blast
    qed
    then show ?thesis by (simp add: run blk)
  next
    case False
    then have "for_loop x0 x1 (cols_col rowCum w h) integral = Some integral"
      by (simp add: for_loop_done)
    moreover have "cols_done img w h (\<lambda>y x. D y x \<or> block w n tid x) integral"
      using inv by (rule cols_done_weaken) (use False in \<open>auto simp: blk\<close>)
    ultimately show ?thesis by (simp add: run)
  qed
qed

lemma run_workers_cols:
  assumes rc: "rows_done img w h (\<lambda>y x. True) rowCum" and inv: "cols_done img w h D integral"
  shows "\<exists>integral'. run_workers (worker_cols rowCum w h n) tids integral = Some integral' \<and>
           cols_done img w h (\<lambda>y x. D y x \<or> (\<exists>tid\<in>set tids. block w n tid x)) integral'"
  using inv
proof (induction tids arbitrary: D integral)
  case Nil
  then show ?case by simp
next
  case (Cons tid tids)
  from worker_cols_step [OF rc Cons.prems, of n tid] obtain t where
    t: "worker_cols rowCum w h n tid integral = Some t"
      "cols_done img w h (\<lambda>y x. D y x \<or> block w n tid x) t" by blast
  from Cons.IH [OF t(2)] obtain t' where
    t': "run_workers (worker_cols rowCum w h n) tids t = Some t'"
      "cols_done img w h (\<lambda>y x. (D y x \<or> block w n tid x) \<or> (\<exists>tid\<in>set tids. block w n tid x)) t'"
    by blast
  have "cols_done img w h (\<lambda>y x. D y x \<or> (\<exists>tid\<in>set (tid # tids). block w n tid x)) t'"
    using t'(2) by (rule cols_done_weaken) auto
  then show ?case by (simp add: t(1) t'(1))
qed

lemma cols_done_all:
  assumes "cols_done img w h (\<lambda>y x. True) integral" and w: "0 < w"
  shows "integral = sat_table img w h"
proof (rule table_inv_full, unfold table_inv_def, intro conjI allI impI)
  show "length integral = w * h" using assms by (simp add: cols_done_def)
next
  fix k assume k: "k < w * h"
  have "k div w < h" using k by (simp add: less_mult_imp_div_less mult.commute)
  moreover have "k mod w < w" using w by simp
  moreover have "\<forall>y<h. \<forall>x<w. integral ! (y * w + x) = sat_spec img w x y"
    using assms(1) by (simp add: cols_done_def)
  ultimately have "integral ! (k div w * w + k mod w) = sat_spec img w (k mod w) (k div w)"
    by blast
  then show "integral ! k = sat_spec img w (k mod w) (k div w)" by simp
qed

lemma phase2_any_order:
  assumes rc: "rows_done img w h (\<lambda>y x. True) rowCum" and n: "0 < n" and w: "0 < w"
    and all: "{..<n} \<subseteq> set tids"
  shows "run_workers (worker_cols rowCum w h n) tids (replicate (w * h) 0) = Some (sat_table img w h)"
proof -
  have "cols_done img w h (\<lambda>y x. False) (replicate (w * h) 0)"
    by (simp add: cols_done_def)
  from run_workers_cols [OF rc this, of n tids] obtain t where
    t: "run_workers (worker_cols rowCum w h n) tids (replicate (w * h) 0) = Some t"
      "cols_done img w h (\<lambda>y x. False \<or> (\<exists>tid\<in>set tids. block w n tid x)) t" by blast
  have "cols_done img w h (\<lambda>y x. True) t"
    using t(2) by (rule cols_done_weaken) (use block_cover [OF n] all in blast)
  with t(1) w show ?thesis by (simp add: cols_done_all)
qed

text \<open>
  In whatever order the workers of each phase run, as long as every worker runs, the
  table is the summed-area table.
\<close>

lemma multi_order_correct:
  assumes len: "w * h \<le> length img"
    and rows: "{..<nat (if num_threads < 1 then 1 else num_threads)} \<subseteq> set rows_order"
    and cols: "{..<nat (if num_threads < 1 then 1 else num_threads)} \<subseteq> set cols_order"
  shows "computeIntegralMulti_order rows_order cols_order img w h out num_threads =
         Some (sat_table img w h)"
proof (cases "w = 0 \<or> h = 0")
  case True
  then show ?thesis by (auto simp: computeIntegralMulti_order_def sat_table_def)
next
  case False
  define n where "n = nat (if num_threads < 1 then 1 else num_threads)"
  have n: "0 < n" by (simp add: n_def)
  from phase1_any_order [OF len n rows [folded n_def]] obtain rowCum where
    p1: "run_workers (worker_rows img w h n) rows_order (replicate (w * h) 0) = Some rowCum"
    and rc: "rows_done img w h (\<lambda>y x. True) rowCum" by blast
  have p2: "run_workers (worker_cols rowCum w h n) cols_order (replicate (w * h) 0) =
            Some (sat_table img w h)"
    using rc n False cols [folded n_def] by (intro phase2_any_order) simp_all
  show ?thesis using False p1 p2
    by (simp add: computeIntegralMulti_order_def Let_def n_def [symmetric])
qed

lemma multi_in_order:
  "computeIntegralMulti img w h out num_threads =
   computeIntegralMulti_order
     [0..<nat (if num_threads < 1 then 1 else num_threads)]
     [0..<nat (if num_threads < 1 then 1 else num_threads)] img w h out num_threads"
  by (simp add: computeIntegralMulti_def computeIntegralMulti_order_def for_loop_upt Let_def)

lemma multi_correct:
  assumes len: "w * h \<le> length img"
  shows "computeIntegralMulti img w h out num_threads = Some (sat_table img w h)"
  unfolding multi_in_order using len by (rule multi_order_correct) auto

section \<open>The naive builder\<close>

lemma naive_column_run:
  assumes len: "w * h \<le> length img" and y: "y < h" and i: "i < w"
  shows "naive_column img w y i s = Some (s + (\<Sum>j\<le>y. ucast (img ! (j * w + i))))"
proof -
  let ?I = "\<lambda>j (acc::u64). acc = s + (\<Sum>j'<j. ucast (img ! (j' * w + i)))"
  have "\<exists>acc. for_loop 0 (y + 1) (naive_add img w i) s = Some acc \<and> ?I (y + 1) acc"
  proof (rule for_loop_inv [where I = ?I])
    show "?I 0 s" by simp
  next
    show "0 \<le> y + 1" by simp
  next
    fix k t assume k: "k < y + 1" and t: "?I k t"
    have "k * w + i < w * h" using i k y by (intro idx_bound) simp_all
    then show "\<exists>t'. naive_add img w i k t = Some t' \<and> ?I (Suc k) t'"
      using len t by (simp add: naive_add_def vget_Some add.assoc)
  qed
  then show ?thesis by (simp add: naive_column_def lessThan_Suc_atMost)
qed

text \<open>The naive builder sums column by column; the order of summation does not matter.\<close>

lemma naive_sum_run:
  assumes len: "w * h \<le> length img" and y: "y < h" and x: "x < w"
  shows "for_loop 0 (x + 1) (naive_column img w y) 0 = Some (sat_spec img w x y)"
proof -
  let ?I = "\<lambda>i (acc::u64). acc = (\<Sum>i'<i. \<Sum>j\<le>y. ucast (img ! (j * w + i')))"
  have "\<exists>acc. for_loop 0 (x + 1) (naive_column img w y) 0 = Some acc \<and> ?I (x + 1) acc"
  proof (rule for_loop_inv [where I = ?I])
    show "?I 0 0" by simp
  next
    show "0 \<le> x + 1" by simp
  next
    fix k t assume k: "k < x + 1" and t: "?I k t"
    have "k < w" using k x by simp
    from naive_column_run [OF len y this, of t] t
    show "\<exists>t'. naive_column img w y k t = Some t' \<and> ?I (Suc k) t'" by simp
  qed
  then have "for_loop 0 (x + 1) (naive_column img w y) 0 =
             Some (\<Sum>i\<le>x. \<Sum>j\<le>y. ucast (img ! (j * w + i)))"
    by (simp add: lessThan_Suc_atMost)
  also have "(\<Sum>i\<le>x. \<Sum>j\<le>y. (ucast (img ! (j * w + i)) :: u64)) = sat_spec img w x y"
    unfolding sat_spec_def by (rule sum.swap)
  finally show ?thesis .
qed

lemma naive_cell_step:
  assumes len: "w * h \<le> length img" and y: "y < h" and x: "x < w"
    and inv: "table_inv img w h (y * w + x) integral"
  shows "\<exists>integral'. naive_cell img w y x integral = Some integral' \<and>
           table_inv img w h (y * w + Suc x) integral'"
proof -
  from inv have li: "length integral = w * h" by (simp add: table_inv_def)
  have idx: "y * w + x < w * h" using x y by (rule idx_bound)
  have "naive_cell img w y x integral = Some (integral[y * w + x := sat_spec img w x y])"
    using idx naive_sum_run [OF len y x] by (simp add: naive_cell_def vset_Some li)
  then show ?thesis using table_inv_next [OF inv x y] by simp
qed

lemma naive_row_step:
  assumes len: "w * h \<le> length img" and y: "y < h"
    and inv: "table_inv img w h (y * w) integral"
  shows "\<exists>integral'. naive_row img w y integral = Some integral' \<and>
           table_inv img w h (Suc y * w) integral'"
proof -
  have "\<exists>t. for_loop 0 w (naive_cell img w y) integral = Some t \<and> table_inv img w h (y * w + w) t"
  proof (rule for_loop_inv [where I = "\<lambda>x. table_inv img w h (y * w + x)"])
    show "table_inv img w h (y * w + 0) integral" using inv by simp
  next
    show "0 \<le> w" by simp
  next
    fix k t assume "k < w" "table_inv img w h (y * w + k) t"
    then show "\<exists>t'. naive_cell img w y k t = Some t' \<and> table_inv img w h (y * w + Suc k) t'"
      using len y by (intro naive_cell_step)
  qed
  then show ?thesis by (simp add: naive_row_def add.commute)
qed

lemma naive_correct:
  assumes len: "w * h \<le> length img"
  shows "computeIntegralNaive img w h out = Some (sat_table img w h)"
proof (cases "w = 0 \<or> h = 0")
  case True
  then show ?thesis by (auto simp: computeIntegralNaive_def sat_table_def)
next
  case False
  have "for_loop 0 h (naive_row img w) (replicate (w * h) 0) = Some (sat_table img w h)"
    by (rule table_loop) (rule naive_row_step [OF len])
  with False show ?thesis by (simp add: computeIntegralNaive_def)
qed

section \<open>Comparing tables\<close>

lemma equal_from_eq:
  assumes len: "length a = length b"
  shows "equal_from a b i = Some (\<forall>k. i \<le> k \<and> k < length a \<longrightarrow> a ! k = b ! k)"
proof (induction "length a - i" arbitrary: i)
  case 0
  then show ?case by (subst equal_from.simps) auto
next
  case (Suc d)
  then have lt: "i < length a" by simp
  show ?case
  proof (cases "a ! i = b ! i")
    case True
    have "equal_from a b i = equal_from a b (Suc i)"
      using lt len True by (subst equal_from.simps) (simp add: vget_def)
    also have "\<dots> = Some (\<forall>k. Suc i \<le> k \<and> k < length a \<longrightarrow> a ! k = b ! k)"
      using Suc.hyps(2) by (intro Suc.hyps(1)) simp
    also have "(\<forall>k. Suc i \<le> k \<and> k < length a \<longrightarrow> a ! k = b ! k) \<longleftrightarrow>
               (\<forall>k. i \<le> k \<and> k < length a \<longrightarrow> a ! k = b ! k)"
    proof (intro iffI allI impI)
      fix k
      assume *: "\<forall>k. Suc i \<le> k \<and> k < length a \<longrightarrow> a ! k = b ! k"
        and k: "i \<le> k \<and> k < length a"
      show "a ! k = b ! k"
      proof (cases "k = i")
        case True
        with \<open>a ! i = b ! i\<close> show ?thesis by simp
      next
        case False
        with k have "Suc i \<le> k \<and> k < length a" by simp
        with * show ?thesis by blast
      qed
    qed simp
    finally show ?thesis .
  next
    case False
    have "equal_from a b i = Some False"
      using lt len False by (subst equal_from.simps) (simp add: vget_def)
    moreover have "\<not> (\<forall>k. i \<le> k \<and> k < length a \<longrightarrow> a ! k = b ! k)"
      using False lt by auto
    ultimately show ?thesis by simp
  qed
qed

lemma equalIntegral_eq: "equalIntegral a b = Some (a = b)"
proof (cases "length a = length b")
  case True
  then show ?thesis
    by (simp add: equalIntegral_def equal_from_eq list_eq_iff_nth_eq)
next
  case False
  then show ?thesis by (auto simp: equalIntegral_def)
qed

section \<open>Rectangle sums by inclusion and exclusion\<close>










section \<open>Exact sums\<close>

text \<open>A sum of 64-bit words whose exact value fits 64 bits has that value.\<close>

lemma unat_sum_exact:
  fixes f :: "'a \<Rightarrow> u64"
  assumes "(\<Sum>i\<in>A. unat (f i)) < 2 ^ 64"
  shows "unat (\<Sum>i\<in>A. f i) = (\<Sum>i\<in>A. unat (f i))"
proof -
  have "(\<Sum>i\<in>A. f i) = of_nat (\<Sum>i\<in>A. unat (f i))" by simp
  then have "unat (\<Sum>i\<in>A. f i) = (\<Sum>i\<in>A. unat (f i)) mod 2 ^ 64"
    by (simp only: unat_of_nat) simp
  then show ?thesis using assms by simp
qed

lemma unat_sample: "unat (ucast (p :: u32) :: u64) = unat p"
  by (simp add: unsigned_ucast_eq take_bit_nat_eq_self_iff order_less_trans [OF unsigned_less])

text \<open>In general a sum of 64-bit words is the exact sum modulo \<open>2\<^sup>6\<^sup>4\<close>.\<close>

lemma unat_sum_mod:
  fixes f :: "'a \<Rightarrow> u64"
  shows "unat (\<Sum>i\<in>A. f i) = (\<Sum>i\<in>A. unat (f i)) mod 2 ^ 64"
proof -
  have "(\<Sum>i\<in>A. f i) = of_nat (\<Sum>i\<in>A. unat (f i))" by simp
  then show ?thesis by (simp only: unat_of_nat) simp
qed

lemma unat_sat_spec_mod:
  "unat (sat_spec img w x y) = (\<Sum>j\<le>y. \<Sum>i\<le>x. unat (img ! (j * w + i))) mod 2 ^ 64"
proof -
  have "unat (sat_spec img w x y) =
        (\<Sum>j\<le>y. unat (\<Sum>i\<le>x. ucast (img ! (j * w + i)) :: u64)) mod 2 ^ 64"
    unfolding sat_spec_def by (rule unat_sum_mod)
  also have "\<dots> = (\<Sum>j\<le>y. (\<Sum>i\<le>x. unat (img ! (j * w + i))) mod 2 ^ 64) mod 2 ^ 64"
    by (simp only: unat_sum_mod unat_sample)
  also have "\<dots> = (\<Sum>j\<le>y. \<Sum>i\<le>x. unat (img ! (j * w + i))) mod 2 ^ 64"
    by (rule mod_sum_eq)
  finally show ?thesis .
qed

text \<open>Summing a row-major grid row by row is summing it cell by cell.\<close>

lemma grid_sum:
  fixes g :: "nat \<Rightarrow> 'a::comm_monoid_add"
  shows "(\<Sum>j<h. \<Sum>i<w. g (j * w + i)) = (\<Sum>k<w * h. g k)"
proof -
  have "(\<Sum>j<h. \<Sum>i<w. g (j * w + i)) = (\<Sum>j<h. sum g {j * w..<j * w + w})"
    by (rule sum.cong [OF refl])
       (simp add: sum.shift_bounds_nat_ivl [of g 0 _ w, simplified] lessThan_atLeast0 add.commute)
  also have "\<dots> = sum g {..<h * w}" by (rule sum.nat_group)
  finally show ?thesis by (simp add: mult.commute)
qed

lemma sat_spec_last:
  assumes "0 < w" "0 < h"
  shows "sat_spec img w (w - 1) (h - 1) = (\<Sum>k<w * h. ucast (img ! k))"
proof -
  from assms have "{..w - 1} = {..<w}" "{..h - 1} = {..<h}" by auto
  then show ?thesis
    using grid_sum [where g = "\<lambda>k. ucast (img ! k) :: u64" and h = h and w = w] by (simp add: sat_spec_def)
qed

lemma rows_total: "(\<Sum>j<h. row_exact img w j w) = grid_total img w h"
  unfolding row_exact_def grid_total_def by (rule grid_sum)

lemma row_exact_Suc:
  "row_exact img w y (Suc n) = row_exact img w y n + unat (img ! (y * w + n))"
  by (simp add: row_exact_def)

lemma row_exact_mono: "n \<le> m \<Longrightarrow> row_exact img w y n \<le> row_exact img w y m"
  unfolding row_exact_def by (intro sum_mono2) auto

lemma sat_exact_rows: "sat_exact img w x y = (\<Sum>j\<le>y. row_exact img w j (Suc x))"
  by (simp add: sat_exact_def row_exact_def lessThan_Suc_atMost)

lemma sat_exact_step:
  "row_exact img w y (Suc x) + (if y > 0 then sat_exact img w x (y - 1) else 0) = sat_exact img w x y"
  by (cases y) (simp_all add: sat_exact_rows add.commute)

lemma sat_exact_mono:
  assumes "x \<le> x'" "y \<le> y'"
  shows "sat_exact img w x y \<le> sat_exact img w x' y'"
proof -
  have "sat_exact img w x y \<le> (\<Sum>j\<le>y. row_exact img w j (Suc x'))"
    unfolding sat_exact_rows using assms by (intro sum_mono row_exact_mono) simp
  also have "\<dots> \<le> sat_exact img w x' y'"
    unfolding sat_exact_rows using assms by (intro sum_mono2) auto
  finally show ?thesis .
qed

lemma sat_exact_last: "0 < w \<Longrightarrow> 0 < h \<Longrightarrow> sat_exact img w (w - 1) (h - 1) = grid_total img w h"
proof -
  assume "0 < w" "0 < h"
  then have "Suc (w - 1) = w" "{..h - 1} = {..<h}" by auto
  then show ?thesis by (simp add: sat_exact_rows rows_total)
qed

lemma sat_exact_le_total:
  assumes "x < w" "y < h"
  shows "sat_exact img w x y \<le> grid_total img w h"
proof -
  have "sat_exact img w x y \<le> sat_exact img w (w - 1) (h - 1)"
    using assms by (intro sat_exact_mono) simp_all
  also have "\<dots> = grid_total img w h"
    using assms by (intro sat_exact_last) simp_all
  finally show ?thesis .
qed

lemma row_exact_le_sat: "row_exact img w y (Suc x) \<le> sat_exact img w x y"
  unfolding sat_exact_rows by (rule member_le_sum) simp_all

lemma row_exact_le_total:
  assumes "n \<le> w" "y < h"
  shows "row_exact img w y n \<le> grid_total img w h"
proof (cases n)
  case 0
  then show ?thesis by (simp add: row_exact_def)
next
  case (Suc x)
  then have "x < w" using assms by simp
  from row_exact_le_sat [of img w y x] sat_exact_le_total [OF this assms(2), of img]
  show ?thesis using Suc by simp
qed

lemma unat_row_prefix:
  assumes "grid_total img w h < 2 ^ 64" "n \<le> w" "y < h"
  shows "unat (row_prefix img w y n) = row_exact img w y n"
proof -
  have "(\<Sum>i<n. unat (ucast (img ! (y * w + i)) :: u64)) = row_exact img w y n"
    by (simp add: row_exact_def unat_sample)
  moreover have "row_exact img w y n < 2 ^ 64"
    using row_exact_le_total [OF assms(2,3), of img] assms(1) by simp
  ultimately show ?thesis
    unfolding row_prefix_def by (subst unat_sum_exact) simp_all
qed

lemma unat_sat_spec:
  assumes "grid_total img w h < 2 ^ 64" "x < w" "y < h"
  shows "unat (sat_spec img w x y) = sat_exact img w x y"
proof -
  have "(\<Sum>j\<le>y. unat (row_prefix img w j (Suc x))) = sat_exact img w x y"
    unfolding sat_exact_rows using assms by (intro sum.cong refl unat_row_prefix) auto
  moreover have "sat_exact img w x y < 2 ^ 64"
    using sat_exact_le_total [OF assms(2,3), of img] assms(1) by simp
  ultimately show ?thesis
    unfolding sat_spec_rows by (subst unat_sum_exact) simp_all
qed

text \<open>At most \<open>2\<^sup>3\<^sup>2\<close> samples below \<open>2\<^sup>3\<^sup>2\<close> sum to less than \<open>2\<^sup>6\<^sup>4\<close>.\<close>

lemma total_small:
  assumes "w * h \<le> 2 ^ 32"
  shows "grid_total img w h < 2 ^ 64"
proof -
  have "unat (img ! k) \<le> 2 ^ 32 - 1" for k
    using unsigned_less [of "img ! k", where 'a = nat] by simp
  then have "grid_total img w h \<le> (\<Sum>k<w * h. 2 ^ 32 - 1)"
    unfolding grid_total_def by (intro sum_mono)
  also have "\<dots> = w * h * (2 ^ 32 - 1)" by simp
  also have "\<dots> \<le> 2 ^ 32 * (2 ^ 32 - 1)" using assms by (intro mult_le_mono1)
  also have "\<dots> < (2 ^ 64 :: nat)" by simp
  finally show ?thesis .
qed

section \<open>The sequential builder does not wrap on sums below \<open>2\<^sup>6\<^sup>4\<close>\<close>

lemma add_nowrap_Some: "unat a + unat b < 2 ^ 64 \<Longrightarrow> add_nowrap a b = Some (a + b)"
  by (simp add: add_nowrap_def)

lemma single_cell_nowrap_run:
  assumes len: "w * h \<le> length img" and tot: "grid_total img w h < 2 ^ 64"
    and y: "y < h" and x: "x < w"
    and inv: "single_inv img w h y x (row_sum, integral)"
  shows "single_cell_nowrap img w y x (row_sum, integral) =
         Some (row_prefix img w y (Suc x), integral[y * w + x := sat_spec img w x y])"
proof -
  from inv have rs: "row_sum = row_prefix img w y x"
    and ti: "table_inv img w h (y * w + x) integral"
    by (simp_all add: single_inv_def)
  from ti have li: "length integral = w * h" by (simp add: table_inv_def)
  have idx: "y * w + x < w * h" using x y by (rule idx_bound)
  have "unat (row_prefix img w y x) + unat (ucast (img ! (y * w + x)) :: u64) =
        row_exact img w y (Suc x)"
    using x by (simp add: unat_row_prefix [OF tot _ y] unat_sample row_exact_Suc)
  also have "\<dots> < 2 ^ 64"
    using row_exact_le_total [of "Suc x" w y h img] x y tot by simp
  finally have a1: "add_nowrap (row_prefix img w y x) (ucast (img ! (y * w + x))) =
                    Some (row_prefix img w y (Suc x))"
    by (simp add: add_nowrap_Some row_prefix_Suc)
  have "unat (if y > 0 then sat_spec img w x (y - 1) else 0) =
        (if y > 0 then sat_exact img w x (y - 1) else 0)"
    using x y by (simp add: unat_sat_spec [OF tot])
  then have "unat (row_prefix img w y (Suc x)) +
             unat (if y > 0 then sat_spec img w x (y - 1) else 0) = sat_exact img w x y"
    using x by (simp only: unat_row_prefix [OF tot _ y] Suc_leI sat_exact_step)
  also have "\<dots> < 2 ^ 64"
    using sat_exact_le_total [OF x y, of img] tot by simp
  finally have a2: "add_nowrap (row_prefix img w y (Suc x))
                      (if y > 0 then sat_spec img w x (y - 1) else 0) =
                    Some (sat_spec img w x y)"
    by (simp only: add_nowrap_Some sat_spec_step)
  show ?thesis
    unfolding single_cell_nowrap_def
    using idx len
    by (simp add: Let_def vget_Some vset_Some li single_above [OF y x ti] rs a1 a2)
qed

lemma single_row_nowrap_step:
  assumes len: "w * h \<le> length img" and tot: "grid_total img w h < 2 ^ 64" and y: "y < h"
    and inv: "table_inv img w h (y * w) integral"
  shows "\<exists>integral'. single_row_nowrap img w y integral = Some integral' \<and>
           table_inv img w h (Suc y * w) integral'"
proof -
  have "\<exists>row_sum integral'.
          for_loop 0 w (single_cell_nowrap img w y) (0, integral) = Some (row_sum, integral') \<and>
          table_inv img w h (Suc y * w) integral'"
    using y inv by (intro row_loop single_cell_nowrap_run [OF len tot])
  then show ?thesis by (auto simp: single_row_nowrap_def)
qed

lemma nowrap_correct:
  assumes len: "w * h \<le> length img" and tot: "grid_total img w h < 2 ^ 64"
  shows "computeIntegralSingle_nowrap img w h out = Some (sat_table img w h)"
proof (cases "w = 0 \<or> h = 0")
  case True
  then show ?thesis by (auto simp: computeIntegralSingle_nowrap_def sat_table_def)
next
  case False
  have "for_loop 0 h (single_row_nowrap img w) (replicate (w * h) 0) = Some (sat_table img w h)"
    by (rule table_loop) (rule single_row_nowrap_step [OF len tot])
  with False show ?thesis by (simp add: computeIntegralSingle_nowrap_def)
qed

section \<open>Images that are too short\<close>

text \<open>A loop faults when one of its iterations faults on every state.\<close>

lemma for_loop_fault:
  assumes "i \<le> k" "k < n" and fault: "\<And>s. body k s = None"
  shows "for_loop i n body s = None"
  using assms(1)
proof (induction "k - i" arbitrary: i s)
  case 0
  then have "i = k" by simp
  then show ?case using assms(2) by (simp add: for_loop_step fault)
next
  case (Suc d)
  then have lt: "i < n" and le: "Suc i \<le> k" using assms(2) by simp_all
  have "for_loop (Suc i) n body t = None" for t
    using Suc.hyps(2) le by (intro Suc.hyps(1)) simp_all
  then show ?case by (cases "body i s") (simp_all add: for_loop_step [OF lt])
qed

text \<open>The first sample past the end of a short image lies in the grid.\<close>

lemma short_cell:
  assumes "0 < w" "length img < w * h"
  shows "length img mod w < w" "length img div w < h"
    "length img div w * w + length img mod w = length img"
  using assms by (simp_all add: less_mult_imp_div_less mult.commute)

lemma single_short:
  assumes w: "w \<noteq> 0" and h: "h \<noteq> 0" and short: "length img < w * h"
  shows "computeIntegralSingle img w h out = None"
proof -
  define x y where "x = length img mod w" and "y = length img div w"
  have x: "x < w" and y: "y < h" and k: "y * w + x = length img"
    using short_cell [of w img h] w short by (simp_all add: x_def y_def)
  have "single_cell img w y x st = None" for st
    by (cases st) (simp add: single_cell_def k vget_def Let_def)
  then have "for_loop 0 w (single_cell img w y) st = None" for st
    using x by (intro for_loop_fault [where k = x]) simp_all
  then have "single_row img w y t = None" for t
    by (simp add: single_row_def)
  then have "for_loop 0 h (single_row img w) t = None" for t
    using y by (intro for_loop_fault [where k = y]) simp_all
  then show ?thesis using w h by (simp add: computeIntegralSingle_def)
qed

lemma naive_short:
  assumes w: "w \<noteq> 0" and h: "h \<noteq> 0" and short: "length img < w * h"
  shows "computeIntegralNaive img w h out = None"
proof -
  define x y where "x = length img mod w" and "y = length img div w"
  have x: "x < w" and y: "y < h" and k: "y * w + x = length img"
    using short_cell [of w img h] w short by (simp_all add: x_def y_def)
  have "naive_add img w x y s = None" for s
    by (simp add: naive_add_def k vget_def)
  then have "naive_column img w y x s = None" for s
    unfolding naive_column_def by (intro for_loop_fault [where k = y]) simp_all
  then have "for_loop 0 (x + 1) (naive_column img w y) s = None" for s
    by (intro for_loop_fault [where k = x]) simp_all
  then have "naive_cell img w y x t = None" for t
    by (simp add: naive_cell_def)
  then have "naive_row img w y t = None" for t
    unfolding naive_row_def using x by (intro for_loop_fault [where k = x]) simp_all
  then have "for_loop 0 h (naive_row img w) t = None" for t
    using y by (intro for_loop_fault [where k = y]) simp_all
  then show ?thesis using w h by (simp add: computeIntegralNaive_def)
qed

lemma multi_short:
  assumes w: "w \<noteq> 0" and h: "h \<noteq> 0" and short: "length img < w * h"
  shows "computeIntegralMulti img w h out num_threads = None"
proof -
  define x y where "x = length img mod w" and "y = length img div w"
  have x: "x < w" and y: "y < h" and k: "y * w + x = length img"
    using short_cell [of w img h] w short by (simp_all add: x_def y_def)
  define n where "n = nat (if num_threads < 1 then 1 else num_threads)"
  have n: "0 < n" by (simp add: n_def)
  define tid where "tid = y div ((h + n - 1) div n)"
  note worker = row_has_worker [OF n y, folded tid_def]
  have "rows_cell img (y * w) x st = None" for st
    by (cases st) (simp add: rows_cell_def k vget_def)
  then have "for_loop 0 w (rows_cell img (y * w)) st = None" for st
    using x by (intro for_loop_fault [where k = x]) simp_all
  then have "rows_row img w y t = None" for t
    by (simp add: rows_row_def)
  then have "worker_rows img w h n tid t = None" for t
    unfolding worker_rows_def Let_def
    using worker(2,3) by (intro for_loop_fault [where k = y]) simp_all
  then have "for_loop 0 n (worker_rows img w h n) t = None" for t
    using worker(1) by (intro for_loop_fault [where k = tid]) simp_all
  then show ?thesis using w h
    by (simp add: computeIntegralMulti_def Let_def n_def [symmetric])
qed

section \<open>A row of equal samples\<close>

lemma const_row_cell:
  assumes k: "k < n"
  shows "computeIntegralSingle (replicate n c) n 1 out \<noteq> None"
    and "the (computeIntegralSingle (replicate n c) n 1 out) ! (0 * n + k) = of_nat (Suc k) * ucast c"
proof -
  have run: "computeIntegralSingle (replicate n c) n 1 out = Some (sat_table (replicate n c) n 1)"
    by (rule single_correct) simp
  then show "computeIntegralSingle (replicate n c) n 1 out \<noteq> None" by simp
  have "sat_table (replicate n c) n 1 ! (0 * n + k) = sat_spec (replicate n c) n k 0"
    using k by (intro sat_table_nth) simp_all
  also have "\<dots> = (\<Sum>i\<le>k. ucast (replicate n c ! i))"
    by (simp add: sat_spec_def)
  also have "\<dots> = (\<Sum>i\<le>k. ucast c)"
    using k by (intro sum.cong refl) simp
  also have "\<dots> = of_nat (Suc k) * ucast c" by simp
  finally show "the (computeIntegralSingle (replicate n c) n 1 out) ! (0 * n + k) =
                of_nat (Suc k) * ucast c"
    unfolding run by simp
qed

lemma const_row_total:
  assumes k: "k < n"
  shows "(\<Sum>j\<le>0. \<Sum>i\<le>k. unat (replicate n c ! (j * n + i))) = Suc k * unat (c :: u32)"
proof -
  have "(\<Sum>j\<le>0::nat. \<Sum>i\<le>k. unat (replicate n c ! (j * n + i))) = (\<Sum>i\<le>k. unat (replicate n c ! i))"
    by simp
  also have "\<dots> = (\<Sum>i\<le>k. unat c)"
    using k by (intro sum.cong refl) simp
  also have "\<dots> = Suc k * unat c" by simp
  finally show ?thesis .
qed

section \<open>The concrete scenario of the specification\<close>

text \<open>
  The 3 by 3 grid 1, ..., 9 and its table, run through the three builders (the parallel
  one with two workers, and with more workers than rows), and a grid that is one sample
  short.
\<close>

lemma scenario_single:
  "computeIntegralSingle [1, 2, 3, 4, 5, 6, 7, 8, 9] 3 3 [] = Some [1, 3, 6, 5, 12, 21, 12, 27, 45]"
  by code_simp

lemma scenario_multi:
  "computeIntegralMulti [1, 2, 3, 4, 5, 6, 7, 8, 9] 3 3 [] 2 = Some [1, 3, 6, 5, 12, 21, 12, 27, 45]"
  "computeIntegralMulti [1, 2, 3, 4, 5, 6, 7, 8, 9] 3 3 [] 8 = Some [1, 3, 6, 5, 12, 21, 12, 27, 45]"
  by code_simp+

lemma scenario_multi_order:
  "computeIntegralMulti_order [2, 0, 1] [1, 2, 0] [1, 2, 3, 4, 5, 6, 7, 8, 9] 3 3 [] 3 =
     Some [1, 3, 6, 5, 12, 21, 12, 27, 45]"
  by code_simp

lemma scenario_naive:
  "computeIntegralNaive [1, 2, 3, 4, 5, 6, 7, 8, 9] 3 3 [] = Some [1, 3, 6, 5, 12, 21, 12, 27, 45]"
  by code_simp

lemma scenario_short:
  "computeIntegralSingle [1, 2, 3, 4, 5, 6, 7, 8] 3 3 [] = None"
  "computeIntegralMulti [1, 2, 3, 4, 5, 6, 7, 8] 3 3 [] 2 = None"
  "computeIntegralNaive [1, 2, 3, 4, 5, 6, 7, 8] 3 3 [] = None"
  by code_simp+

lemma scenario_rect:
  "rect [1, 2, 3, 4, 5, 6, 7, 8, 9] [1, 3, 6, 5, 12, 21, 12, 27, 45] 3 1 1 2 2 = Some (28, 28)"
  by code_simp

lemma scenario_equal:
  "equalIntegral [1, 3, 6] [1, 3, 6] = Some True"
  "equalIntegral [1, 3, 6] [1, 3, 7] = Some False"
  "equalIntegral [1, 3, 6] [1, 3] = Some False"
  by code_simp+

lemma scenario_main:
  "main [1, 2, 3, 4, 5, 6, 7, 8, 9] 3 3 2 5 ''both'' = Exit 0 [(''Single'', 5), (''Multi'', 5)]"
  "main [] 0 3 2 5 ''both'' = Threw_invalid_argument"
  by code_simp+

lemma add_nowrap_wraps: "add_nowrap 0xFFFFFFFFFFFFFFFF 1 = None"
  by (simp add: add_nowrap_def)

section \<open>The claims about the builders\<close>

text \<open>
  C1 as stated fails on grids whose sums wrap. The input is a single row of
  \<open>2\<^sup>3\<^sup>2 + 2\<close> samples, each \<open>2\<^sup>3\<^sup>2 - 1\<close>: the last cell of the table is \<open>2\<^sup>3\<^sup>2 - 2\<close>, and
  the samples up to it sum to \<open>(2\<^sup>3\<^sup>2 + 2) * (2\<^sup>3\<^sup>2 - 1)\<close>.
\<close>

theorem C1_counterexample:
  "(1::nat) \<le> 4294967298 \<and> (1::nat) \<le> 1 \<and>
   length (replicate 4294967298 (0xFFFFFFFF :: u32)) = 4294967298 * 1 \<and>
   computeIntegralSingle (replicate 4294967298 0xFFFFFFFF) 4294967298 1 [] \<noteq> None \<and>
   unat (the (computeIntegralSingle (replicate 4294967298 0xFFFFFFFF) 4294967298 1 [])
     ! (0 * 4294967298 + 4294967297)) = 4294967294 \<and>
   (\<Sum>j\<le>0. \<Sum>i\<le>4294967297. unat (replicate 4294967298 (0xFFFFFFFF :: u32) ! (j * 4294967298 + i)))
     = 4294967298 * 4294967295 \<and>
   (4294967294 :: nat) \<noteq> 4294967298 * 4294967295"
proof -
  let ?n = "4294967298 :: nat"
  let ?c = "0xFFFFFFFF :: u32"
  have b: "(4294967297 :: nat) < ?n" by simp
  have cell: "the (computeIntegralSingle (replicate ?n ?c) ?n 1 []) ! (0 * ?n + 4294967297) =
        of_nat (Suc 4294967297) * ucast ?c"
    by (rule const_row_cell(2) [OF b])
  have "(of_nat (Suc 4294967297) * ucast ?c :: u64) = 4294967294" by simp
  then have val: "unat (the (computeIntegralSingle (replicate ?n ?c) ?n 1 []) ! (0 * ?n + 4294967297)) =
        4294967294"
    by (simp only: cell) simp
  have tot: "(\<Sum>j\<le>0. \<Sum>i\<le>4294967297. unat (replicate ?n ?c ! (j * ?n + i))) = ?n * 4294967295"
    using const_row_total [OF b, of ?c] by simp
  from val tot const_row_cell(1) [OF b, of ?c "[]"] show ?thesis by simp
qed

text \<open>
  C1, amended. For every grid \<open>img\<close> with \<open>w \<ge> 1\<close>, \<open>h \<ge> 1\<close> and \<open>w * h\<close> samples,
  \<open>computeIntegralSingle\<close> produces a table of \<open>w * h\<close> cells, and for all \<open>x < w\<close> and
  \<open>y < h\<close> the cell at index \<open>y * w + x\<close> is the sum of the samples \<open>img[j * w + i]\<close> over
  all \<open>i \<le> x\<close> and \<open>j \<le> y\<close> modulo \<open>2\<^sup>6\<^sup>4\<close>, that is, their sum in \<^verbatim>\<open>u64\<close> arithmetic.
\<close>

theorem C1_single_is_summed_area_table:
  assumes "1 \<le> w" and "1 \<le> h" and "length img = w * h"
  shows "\<exists>table. computeIntegralSingle img w h out = Some table \<and> length table = w * h \<and>
           (\<forall>x<w. \<forall>y<h.
              unat (table ! (y * w + x)) =
                (\<Sum>j\<le>y. \<Sum>i\<le>x. unat (img ! (j * w + i))) mod 2 ^ 64 \<and>
              table ! (y * w + x) = (\<Sum>j\<le>y. \<Sum>i\<le>x. ucast (img ! (j * w + i))))"
proof -
  have "computeIntegralSingle img w h out = Some (sat_table img w h)"
    using assms(3) by (intro single_correct) simp
  moreover have "\<forall>x<w. \<forall>y<h.
      unat (sat_table img w h ! (y * w + x)) =
        (\<Sum>j\<le>y. \<Sum>i\<le>x. unat (img ! (j * w + i))) mod 2 ^ 64 \<and>
      sat_table img w h ! (y * w + x) = (\<Sum>j\<le>y. \<Sum>i\<le>x. ucast (img ! (j * w + i)))"
    by (simp add: sat_table_nth unat_sat_spec_mod) (simp add: sat_spec_def)
  ultimately show ?thesis using sat_table_length [of img w h] by blast
qed

theorem C1_witness:
  "(1::nat) \<le> 3 \<and> length [1, 2, 3, 4, 5, 6, 7, 8, 9 :: u32] = 3 * 3 \<and>
   (\<exists>table. computeIntegralSingle [1, 2, 3, 4, 5, 6, 7, 8, 9] 3 3 [] = Some table \<and>
      length table = 3 * 3 \<and>
      (\<forall>x<3. \<forall>y<3.
         unat (table ! (y * 3 + x)) =
           (\<Sum>j\<le>y. \<Sum>i\<le>x. unat ([1, 2, 3, 4, 5, 6, 7, 8, 9 :: u32] ! (j * 3 + i))) mod 2 ^ 64 \<and>
         table ! (y * 3 + x) =
           (\<Sum>j\<le>y. \<Sum>i\<le>x. ucast ([1, 2, 3, 4, 5, 6, 7, 8, 9 :: u32] ! (j * 3 + i)))))"
proof -
  have one: "(1::nat) \<le> 3" and len: "length [1, 2, 3, 4, 5, 6, 7, 8, 9 :: u32] = 3 * 3"
    by simp_all
  from C1_single_is_summed_area_table [OF one one len, of "[]"] one len
  show ?thesis by blast
qed

text \<open>
  C2. For every grid with \<open>w * h\<close> samples and every worker count \<open>num_threads\<close>, whatever
  its size relative to \<open>w\<close> and \<open>h\<close> (and also below 1), the table of
  \<open>computeIntegralMulti\<close> is the table of \<open>computeIntegralSingle\<close> on the same grid.
\<close>

theorem C2_multi_equals_single:
  assumes "length img = w * h"
  shows "\<exists>table. computeIntegralSingle img w h out = Some table \<and>
           computeIntegralMulti img w h out' num_threads = Some table"
  using assms by (simp add: single_correct multi_correct)

theorem C2_witness:
  "length [1, 2, 3, 4, 5, 6, 7, 8, 9 :: u32] = 3 * 3 \<and>
   (\<exists>table. computeIntegralSingle [1, 2, 3, 4, 5, 6, 7, 8, 9] 3 3 [] = Some table \<and>
      computeIntegralMulti [1, 2, 3, 4, 5, 6, 7, 8, 9] 3 3 [] 8 = Some table)"
  using C2_multi_equals_single [of "[1, 2, 3, 4, 5, 6, 7, 8, 9]" 3 3 "[]" "[]" 8]
  by simp

text \<open>
  C3. For every grid with \<open>w * h\<close> samples, the table of \<open>computeIntegralNaive\<close>, which
  sums the rectangle from the origin again for each cell, is the table of
  \<open>computeIntegralSingle\<close> on the same grid.
\<close>

theorem C3_naive_equals_single:
  assumes "length img = w * h"
  shows "\<exists>table. computeIntegralSingle img w h out = Some table \<and>
           computeIntegralNaive img w h out' = Some table"
  using assms by (simp add: single_correct naive_correct)

theorem C3_witness:
  "length [1, 2, 3, 4, 5, 6, 7, 8, 9 :: u32] = 3 * 3 \<and>
   (\<exists>table. computeIntegralSingle [1, 2, 3, 4, 5, 6, 7, 8, 9] 3 3 [] = Some table \<and>
      computeIntegralNaive [1, 2, 3, 4, 5, 6, 7, 8, 9] 3 3 [] = Some table)"
  using C3_naive_equals_single [of "[1, 2, 3, 4, 5, 6, 7, 8, 9]" 3 3 "[]" "[]"]
  by simp



text \<open>
  C5. For every grid of \<open>w * h\<close> unsigned 32-bit samples whose exact total is below
  \<open>2\<^sup>6\<^sup>4\<close>, and in particular whenever \<open>w * h \<le> 2\<^sup>3\<^sup>2\<close>, every cell of the table of
  \<open>computeIntegralSingle\<close>, computed with 64-bit wrapping accumulators, has as its value
  the exact sum over the natural numbers that it stands for, and no accumulation wraps:
  the builder that faults on a wrapping addition returns the same table.
\<close>

theorem C5_no_wrap_below_2_64:
  assumes "length img = w * h"
    and "(\<Sum>k<w * h. unat (img ! k)) < 2 ^ 64 \<or> w * h \<le> 2 ^ 32"
  shows "\<exists>table. computeIntegralSingle img w h out = Some table \<and>
           computeIntegralSingle_nowrap img w h out = Some table \<and>
           (\<forall>x<w. \<forall>y<h. unat (table ! (y * w + x)) = (\<Sum>j\<le>y. \<Sum>i\<le>x. unat (img ! (j * w + i))))"
proof -
  have len: "w * h \<le> length img" using assms(1) by simp
  have tot: "grid_total img w h < 2 ^ 64"
    using assms(2) total_small [of w h img] by (auto simp: grid_total_def)
  have "\<forall>x<w. \<forall>y<h. unat (sat_table img w h ! (y * w + x)) =
      (\<Sum>j\<le>y. \<Sum>i\<le>x. unat (img ! (j * w + i)))"
    by (simp add: sat_table_nth unat_sat_spec [OF tot] sat_exact_def)
  then show ?thesis
    by (simp add: single_correct [OF len] nowrap_correct [OF len tot])
qed

theorem C5_witness:
  "length [1, 2, 3, 4, 5, 6, 7, 8, 9 :: u32] = 3 * 3 \<and> (3 * 3 :: nat) \<le> 2 ^ 32 \<and>
   (\<exists>table. computeIntegralSingle [1, 2, 3, 4, 5, 6, 7, 8, 9] 3 3 [] = Some table \<and>
      computeIntegralSingle_nowrap [1, 2, 3, 4, 5, 6, 7, 8, 9] 3 3 [] = Some table \<and>
      (\<forall>x<3. \<forall>y<3. unat (table ! (y * 3 + x)) =
         (\<Sum>j\<le>y. \<Sum>i\<le>x. unat ([1, 2, 3, 4, 5, 6, 7, 8, 9 :: u32] ! (j * 3 + i)))))"
proof -
  have len: "length [1, 2, 3, 4, 5, 6, 7, 8, 9 :: u32] = 3 * 3"
    and small: "(3 * 3 :: nat) \<le> 2 ^ 32" by simp_all
  from C5_no_wrap_below_2_64 [OF len disjI2 [OF small], of "[]"] len small
  show ?thesis by blast
qed

text \<open>
  C6 as stated fails on grids whose sums wrap. The input is a single row of
  \<open>2\<^sup>3\<^sup>2 + 2\<close> samples, each \<open>2\<^sup>3\<^sup>2 - 1\<close>: the cell at \<open>x = 2\<^sup>3\<^sup>2\<close> is \<open>2\<^sup>6\<^sup>4 - 1\<close>, and the
  next cell of the row has wrapped to \<open>2\<^sup>3\<^sup>2 - 2\<close>.
\<close>

theorem C6_counterexample:
  "length (replicate 4294967298 (0xFFFFFFFF :: u32)) = 4294967298 * 1 \<and>
   computeIntegralSingle (replicate 4294967298 0xFFFFFFFF) 4294967298 1 [] \<noteq> None \<and>
   the (computeIntegralSingle (replicate 4294967298 0xFFFFFFFF) 4294967298 1 [])
     ! (0 * 4294967298 + 4294967296) = 0xFFFFFFFFFFFFFFFF \<and>
   the (computeIntegralSingle (replicate 4294967298 0xFFFFFFFF) 4294967298 1 [])
     ! (0 * 4294967298 + 4294967296 + 1) = 0xFFFFFFFE \<and>
   \<not> ((0xFFFFFFFFFFFFFFFF :: u64) \<le> 0xFFFFFFFE)"
proof -
  let ?n = "4294967298 :: nat"
  let ?c = "0xFFFFFFFF :: u32"
  have a: "(4294967296::nat) < ?n" and b: "(4294967296 + 1 :: nat) < ?n" by simp_all
  have "the (computeIntegralSingle (replicate ?n ?c) ?n 1 []) ! (0 * ?n + 4294967296) =
        of_nat (Suc 4294967296) * ucast ?c"
    by (rule const_row_cell(2) [OF a])
  moreover have "the (computeIntegralSingle (replicate ?n ?c) ?n 1 []) ! (0 * ?n + (4294967296 + 1)) =
        of_nat (Suc (4294967296 + 1)) * ucast ?c"
    by (rule const_row_cell(2) [OF b])
  moreover note const_row_cell(1) [OF a, of ?c "[]"]
  ultimately show ?thesis by (simp add: add.assoc)
qed

text \<open>
  C6, amended. For every grid with \<open>w * h\<close> samples the last cell of the table of
  \<open>computeIntegralSingle\<close> is the \<^verbatim>\<open>u64\<close> sum of all samples. When the exact total of the
  samples is below \<open>2\<^sup>6\<^sup>4\<close>, in particular whenever \<open>w * h \<le> 2\<^sup>3\<^sup>2\<close>, the table is
  non-decreasing along each row (\<open>table[y*w+x] \<le> table[y*w+x+1]\<close> for \<open>x < w - 1\<close>) and
  along each column (\<open>table[y*w+x] \<le> table[(y+1)*w+x]\<close> for \<open>y < h - 1\<close>), and the last
  cell is the exact total.
\<close>

theorem C6_monotone_without_wrap:
  assumes "length img = w * h"
  shows "\<exists>table. computeIntegralSingle img w h out = Some table \<and>
           (0 < w \<and> 0 < h \<longrightarrow>
              table ! ((h - 1) * w + (w - 1)) = (\<Sum>k<w * h. ucast (img ! k))) \<and>
           ((\<Sum>k<w * h. unat (img ! k)) < 2 ^ 64 \<or> w * h \<le> 2 ^ 32 \<longrightarrow>
              (\<forall>y<h. \<forall>x<w - 1. table ! (y * w + x) \<le> table ! (y * w + x + 1)) \<and>
              (\<forall>x<w. \<forall>y<h - 1. table ! (y * w + x) \<le> table ! ((y + 1) * w + x)) \<and>
              (0 < w \<and> 0 < h \<longrightarrow>
                 unat (table ! ((h - 1) * w + (w - 1))) = (\<Sum>k<w * h. unat (img ! k))))"
proof -
  let ?t = "sat_table img w h"
  have len: "w * h \<le> length img" using assms by simp
  have last: "?t ! ((h - 1) * w + (w - 1)) = (\<Sum>k<w * h. ucast (img ! k))" if "0 < w" "0 < h"
    using that sat_table_nth [of "w - 1" w "h - 1" h img] sat_spec_last [of w h img] by simp
  have mono: "(\<forall>y<h. \<forall>x<w - 1. ?t ! (y * w + x) \<le> ?t ! (y * w + x + 1)) \<and>
      (\<forall>x<w. \<forall>y<h - 1. ?t ! (y * w + x) \<le> ?t ! ((y + 1) * w + x)) \<and>
      (0 < w \<and> 0 < h \<longrightarrow> unat (?t ! ((h - 1) * w + (w - 1))) = (\<Sum>k<w * h. unat (img ! k)))"
    if "(\<Sum>k<w * h. unat (img ! k)) < 2 ^ 64 \<or> w * h \<le> 2 ^ 32"
  proof -
    have tot: "grid_total img w h < 2 ^ 64"
      using that total_small [of w h img] by (auto simp: grid_total_def)
    have cell: "unat (?t ! (y * w + x)) = sat_exact img w x y" if "x < w" "y < h" for x y
      using that by (simp add: sat_table_nth unat_sat_spec [OF tot])
    have "?t ! (y * w + x) \<le> ?t ! (y * w + x + 1)" if "y < h" "x < w - 1" for x y
    proof -
      have "unat (?t ! (y * w + x)) \<le> unat (?t ! (y * w + (x + 1)))"
        using that by (simp only: cell) (simp add: cell sat_exact_mono)
      then show ?thesis by (simp add: word_le_nat_alt add.assoc)
    qed
    moreover have "?t ! (y * w + x) \<le> ?t ! ((y + 1) * w + x)" if "x < w" "y < h - 1" for x y
    proof -
      have "unat (?t ! (y * w + x)) \<le> unat (?t ! ((y + 1) * w + x))"
        using that by (simp only: cell) (simp add: cell sat_exact_mono)
      then show ?thesis by (simp add: word_le_nat_alt)
    qed
    moreover have "unat (?t ! ((h - 1) * w + (w - 1))) = (\<Sum>k<w * h. unat (img ! k))"
      if "0 < w" "0 < h"
      using that cell [of "w - 1" "h - 1"] sat_exact_last [of w h img]
      by (simp add: grid_total_def)
    ultimately show ?thesis by blast
  qed
  show ?thesis
    using single_correct [OF len, of out] last mono by blast
qed

theorem C6_witness:
  "length [1, 2, 3, 4, 5, 6, 7, 8, 9 :: u32] = 3 * 3 \<and> (3 * 3 :: nat) \<le> 2 ^ 32 \<and> (0::nat) < 3 \<and>
   (\<exists>table. computeIntegralSingle [1, 2, 3, 4, 5, 6, 7, 8, 9] 3 3 [] = Some table \<and>
      table ! ((3 - 1) * 3 + (3 - 1)) = (\<Sum>k<3 * 3. ucast ([1, 2, 3, 4, 5, 6, 7, 8, 9 :: u32] ! k)) \<and>
      (\<forall>y<3. \<forall>x<3 - 1. table ! (y * 3 + x) \<le> table ! (y * 3 + x + 1)) \<and>
      (\<forall>x<3. \<forall>y<3 - 1. table ! (y * 3 + x) \<le> table ! ((y + 1) * 3 + x)) \<and>
      unat (table ! ((3 - 1) * 3 + (3 - 1))) = (\<Sum>k<3 * 3. unat ([1, 2, 3, 4, 5, 6, 7, 8, 9 :: u32] ! k)))"
proof -
  have len: "length [1, 2, 3, 4, 5, 6, 7, 8, 9 :: u32] = 3 * 3"
    and small: "(3 * 3 :: nat) \<le> 2 ^ 32" and pos: "(0::nat) < 3" by simp_all
  from C6_monotone_without_wrap [OF len, of "[]"] len small pos
  show ?thesis by blast
qed

text \<open>
  C7. For every input with \<open>w = 0\<close> or \<open>h = 0\<close>, whatever \<open>img\<close> holds, each of
  \<open>computeIntegralSingle\<close>, \<open>computeIntegralMulti\<close> and \<open>computeIntegralNaive\<close> returns
  normally with an empty table: the previous contents \<open>out\<close> of the output buffer are
  cleared.
\<close>

theorem C7_degenerate_dimensions:
  assumes "w = 0 \<or> h = 0"
  shows "computeIntegralSingle img w h out = Some [] \<and>
         computeIntegralMulti img w h out num_threads = Some [] \<and>
         computeIntegralNaive img w h out = Some []"
  using assms
  by (auto simp: computeIntegralSingle_def computeIntegralMulti_def computeIntegralNaive_def)

theorem C7_witness:
  "((0::nat) = 0 \<or> (5::nat) = 0) \<and>
   computeIntegralSingle [1, 2] 0 5 [7, 8, 9] = Some [] \<and>
   computeIntegralMulti [1, 2] 0 5 [7, 8, 9] 4 = Some [] \<and>
   computeIntegralNaive [1, 2] 0 5 [7, 8, 9] = Some []"
  using C7_degenerate_dimensions [of 0 5 "[1, 2]" "[7, 8, 9]" 4]
  by simp

text \<open>
  C8. For every \<open>num_threads < 1\<close>, zero or negative, \<open>computeIntegralMulti\<close> clamps the
  worker count to 1: on every input it does exactly what it does with
  \<open>num_threads = 1\<close>, and on every grid with \<open>w * h\<close> samples it does not fail and
  returns the table of \<open>computeIntegralSingle\<close>.
\<close>

theorem C8_worker_count_clamped:
  assumes "num_threads < 1"
  shows "computeIntegralMulti img w h out num_threads = computeIntegralMulti img w h out 1 \<and>
         (length img = w * h \<longrightarrow>
            (\<exists>table. computeIntegralMulti img w h out num_threads = Some table \<and>
               computeIntegralMulti img w h out 1 = Some table \<and>
               computeIntegralSingle img w h out = Some table))"
proof -
  have "computeIntegralMulti img w h out num_threads = computeIntegralMulti img w h out 1"
    using assms by (simp add: computeIntegralMulti_def)
  then show ?thesis by (simp add: single_correct multi_correct)
qed

theorem C8_witness:
  "(-3 :: int) < 1 \<and> length [1, 2, 3, 4, 5, 6, 7, 8, 9 :: u32] = 3 * 3 \<and>
   computeIntegralMulti [1, 2, 3, 4, 5, 6, 7, 8, 9] 3 3 [] (-3) =
     computeIntegralMulti [1, 2, 3, 4, 5, 6, 7, 8, 9] 3 3 [] 1 \<and>
   (\<exists>table. computeIntegralMulti [1, 2, 3, 4, 5, 6, 7, 8, 9] 3 3 [] (-3) = Some table \<and>
      computeIntegralMulti [1, 2, 3, 4, 5, 6, 7, 8, 9] 3 3 [] 1 = Some table \<and>
      computeIntegralSingle [1, 2, 3, 4, 5, 6, 7, 8, 9] 3 3 [] = Some table)"
proof -
  have neg: "(-3 :: int) < 1"
    and len: "length [1, 2, 3, 4, 5, 6, 7, 8, 9 :: u32] = 3 * 3" by simp_all
  from C8_worker_count_clamped [OF neg, of "[1, 2, 3, 4, 5, 6, 7, 8, 9]" 3 3 "[]"] neg len
  show ?thesis by blast
qed

text \<open>
  C9. A disagreement of the tables of the sequential and the parallel builder, in size
  or at any index, is detected and fatal: \<open>equalIntegral\<close> returns true exactly when the
  two tables have equal size and agree at every index, and when the tables that the two
  builders returned to \<open>main\<close> differ, \<open>main\<close> ends with exit status 2 before any
  benchmark has run; when they agree it goes on and ends with status 0.
\<close>

theorem C9_mismatch_is_fatal:
  "equalIntegral a b = Some (length a = length b \<and> (\<forall>i<length a. a ! i = b ! i)) \<and>
   (w \<noteq> 0 \<and> h \<noteq> 0 \<and> single img w h [] = Some a \<and>
    multi img w h [] (if threads \<le> 0 then 1 else threads) = Some b \<longrightarrow>
      (\<not> (length a = length b \<and> (\<forall>i<length a. a ! i = b ! i)) \<longrightarrow>
         main_with single multi img w h threads runs method = Exit 2 []) \<and>
      (length a = length b \<and> (\<forall>i<length a. a ! i = b ! i) \<longrightarrow>
         (\<exists>benchmarks. main_with single multi img w h threads runs method = Exit 0 benchmarks)))"
proof -
  have same: "length a = length b \<and> (\<forall>i<length a. a ! i = b ! i) \<longleftrightarrow> a = b"
    by (simp add: list_eq_iff_nth_eq)
  have "main_with single multi img w h threads runs method = Exit 2 []"
    if "w \<noteq> 0" "h \<noteq> 0" "single img w h [] = Some a"
      "multi img w h [] (if threads \<le> 0 then 1 else threads) = Some b" "a \<noteq> b"
    using that unfolding main_with_def Let_def by (simp add: equalIntegral_eq)
  moreover have "\<exists>benchmarks. main_with single multi img w h threads runs method = Exit 0 benchmarks"
    if "w \<noteq> 0" "h \<noteq> 0" "single img w h [] = Some a"
      "multi img w h [] (if threads \<le> 0 then 1 else threads) = Some b" "a = b"
    using that unfolding main_with_def Let_def by (simp add: equalIntegral_eq)
  ultimately show ?thesis
    unfolding same by (simp add: equalIntegral_eq)
qed

theorem C9_witness:
  "equalIntegral [1] [0] = Some (length [1 :: u64] = length [0 :: u64] \<and>
     (\<forall>i<length [1 :: u64]. [1 :: u64] ! i = [0] ! i)) \<and>
   (1::nat) \<noteq> 0 \<and> computeIntegralSingle [1] 1 1 [] = Some [1] \<and>
   computeIntegralMulti [1] 1 1 [] (if (4::int) \<le> 0 then 1 else 4) = Some [1] \<and>
   \<not> (length [1 :: u64] = length [0 :: u64] \<and> (\<forall>i<length [1 :: u64]. [1 :: u64] ! i = [0] ! i)) \<and>
   main_with computeIntegralSingle (\<lambda>img w h out n. Some [0]) [1] 1 1 4 5 ''both'' = Exit 2 [] \<and>
   (\<exists>benchmarks.
      main_with computeIntegralSingle computeIntegralMulti [1] 1 1 4 5 ''both'' = Exit 0 benchmarks)"
proof -
  have single: "computeIntegralSingle [1] 1 1 [] = Some [1]" by code_simp
  have multi: "computeIntegralMulti [1] 1 1 [] (if (4::int) \<le> 0 then 1 else 4) = Some [1]"
    by code_simp
  have ne: "\<not> (length [1 :: u64] = length [0 :: u64] \<and>
      (\<forall>i<length [1 :: u64]. [1 :: u64] ! i = [0] ! i))"
    and eq: "length [1 :: u64] = length [1 :: u64] \<and>
      (\<forall>i<length [1 :: u64]. [1 :: u64] ! i = [1] ! i)"
    by simp_all
  from C9_mismatch_is_fatal [of "[1]" "[0]" 1 1 computeIntegralSingle "[1]"
      "\<lambda>img w h out n. Some [0]" 4 5 "''both''"] single ne
  have bad: "equalIntegral [1] [0] = Some (length [1 :: u64] = length [0 :: u64] \<and>
      (\<forall>i<length [1 :: u64]. [1 :: u64] ! i = [0] ! i))"
    "main_with computeIntegralSingle (\<lambda>img w h out n. Some [0]) [1] 1 1 4 5 ''both'' = Exit 2 []"
    by simp_all
  from C9_mismatch_is_fatal [of "[1]" "[1]" 1 1 computeIntegralSingle "[1]"
      computeIntegralMulti 4 5 "''both''"] single multi eq
  have good: "\<exists>benchmarks.
      main_with computeIntegralSingle computeIntegralMulti [1] 1 1 4 5 ''both'' = Exit 0 benchmarks"
    by simp
  from bad good single multi ne show ?thesis by simp
qed

text \<open>
  C10. When \<open>img\<close> has at least \<open>w * h\<close> samples, every access of
  \<open>computeIntegralSingle\<close>, of \<open>computeIntegralMulti\<close> for any \<open>num_threads\<close>, and of
  \<open>computeIntegralNaive\<close> to the image, to the table of row sums and to the output table
  is in range: the builders return a table, not the out-of-range fault. None of them
  checks the size of \<open>img\<close>: with non-zero dimensions and fewer than \<open>w * h\<close> samples
  each of them does read past the end of the image.
\<close>

theorem C10_accesses_in_bounds:
  "(w * h \<le> length img \<longrightarrow>
      (\<exists>table. computeIntegralSingle img w h out = Some table) \<and>
      (\<exists>table. computeIntegralMulti img w h out num_threads = Some table) \<and>
      (\<exists>table. computeIntegralNaive img w h out = Some table)) \<and>
   (w \<noteq> 0 \<and> h \<noteq> 0 \<and> length img < w * h \<longrightarrow>
      computeIntegralSingle img w h out = None \<and>
      computeIntegralMulti img w h out num_threads = None \<and>
      computeIntegralNaive img w h out = None)"
  by (simp add: single_correct multi_correct naive_correct single_short multi_short naive_short)

theorem C10_witness:
  "3 * 3 \<le> length [1, 2, 3, 4, 5, 6, 7, 8, 9, 10 :: u32] \<and>
   (\<exists>table. computeIntegralSingle [1, 2, 3, 4, 5, 6, 7, 8, 9, 10] 3 3 [] = Some table) \<and>
   (\<exists>table. computeIntegralMulti [1, 2, 3, 4, 5, 6, 7, 8, 9, 10] 3 3 [] 2 = Some table) \<and>
   (\<exists>table. computeIntegralNaive [1, 2, 3, 4, 5, 6, 7, 8, 9, 10] 3 3 [] = Some table) \<and>
   (3::nat) \<noteq> 0 \<and> length [1, 2, 3, 4, 5, 6, 7, 8 :: u32] < 3 * 3 \<and>
   computeIntegralSingle [1, 2, 3, 4, 5, 6, 7, 8] 3 3 [] = None \<and>
   computeIntegralMulti [1, 2, 3, 4, 5, 6, 7, 8] 3 3 [] 2 = None \<and>
   computeIntegralNaive [1, 2, 3, 4, 5, 6, 7, 8] 3 3 [] = None"
  using C10_accesses_in_bounds [of 3 3 "[1, 2, 3, 4, 5, 6, 7, 8, 9, 10]" "[]" 2]
    C10_accesses_in_bounds [of 3 3 "[1, 2, 3, 4, 5, 6, 7, 8]" "[]" 2]
  by simp

end
